theory Spec2Isabelle
  imports
    Main
    "HOL-Library.Word"
    "HOL-Library.AList"
    "HOL-Library.Char_ord"
    "HOL-Library.List_Lexorder"
    "HOL-Library.Multiset"
begin

unbundle bit_operations_syntax

chapter \<open>The uploader of gcs-manifest: upload/main.go\<close>

text \<open>
  The program walks a local tree, starts one goroutine per regular file that
  streams the file to a bucket object and to a SHA-256 hash through one
  \<^verbatim>\<open>io.TeeReader\<close>, collects the digests in a map and publishes the map as
  \<^verbatim>\<open>manifest.json\<close>. The theory embeds \<^verbatim>\<open>parseUri\<close>, \<^verbatim>\<open>uploadFile\<close>, the callback
  handed to \<^verbatim>\<open>filepath.Walk\<close> and \<^verbatim>\<open>main\<close>, together with the library functions
  they call, modelled from the documented behaviour of the Go standard library.
  The lines the program writes to standard error are left out.
\<close>

section \<open>Strings: package strings\<close>

type_synonym byte = "8 word"

text \<open>
  \<^verbatim>\<open>strings.HasPrefix(s, prefix)\<close> is
  \<^verbatim>\<open>len(s) >= len(prefix) && s[:len(prefix)] == prefix\<close>.
\<close>

definition HasPrefix :: "string \<Rightarrow> string \<Rightarrow> bool" where
  "HasPrefix s pre = (length pre \<le> length s \<and> take (length pre) s = pre)"

definition TrimPrefix :: "string \<Rightarrow> string \<Rightarrow> string" where
  "TrimPrefix s pre = (if HasPrefix s pre then drop (length pre) s else s)"

text \<open>\<^verbatim>\<open>strings.Index(s, sep)\<close>: the first position where \<open>sep\<close> occurs, \<open>None\<close> for -1.\<close>

fun Index :: "string \<Rightarrow> string \<Rightarrow> nat option" where
  "Index [] sep = (if sep = [] then Some 0 else None)"
| "Index (c # cs) sep =
     (if HasPrefix (c # cs) sep then Some 0 else map_option Suc (Index cs sep))"

text \<open>
  \<^verbatim>\<open>strings.SplitN(s, sep, n)\<close> for a non-empty separator and \<open>n \<ge> 0\<close>: the loop
  of \<^verbatim>\<open>genSplit\<close> cuts at most \<open>n - 1\<close> times and keeps the rest as the last
  piece; \<open>n = 0\<close> gives nil.
\<close>

fun SplitN :: "string \<Rightarrow> string \<Rightarrow> nat \<Rightarrow> string list" where
  "SplitN s sep 0 = []"
| "SplitN s sep (Suc k) =
     (if k = 0 then [s]
      else (case Index s sep of
              None \<Rightarrow> [s]
            | Some m \<Rightarrow> take m s # SplitN (drop (m + length sep) s) sep k))"

text \<open>\<^verbatim>\<open>strings.Split(s, sep)\<close> cuts at every separator (at most \<open>length s + 1\<close> pieces).\<close>

definition Split :: "string \<Rightarrow> string \<Rightarrow> string list" where
  "Split s sep = SplitN s sep (Suc (length s))"

text \<open>\<^verbatim>\<open>strings.Join(elems, sep)\<close>.\<close>

fun Join :: "string list \<Rightarrow> string \<Rightarrow> string" where
  "Join [] sep = []"
| "Join [x] sep = x"
| "Join (x # y # ys) sep = x @ sep @ Join (y # ys) sep"

section \<open>Errors\<close>

datatype error =
    InvalidUri string     \<comment> \<open>\<^verbatim>\<open>fmt.Errorf("invalid uri: %s", uri)\<close>\<close>
  | ClientError           \<comment> \<open>\<^verbatim>\<open>storage.NewClient\<close> failed\<close>
  | GetwdError            \<comment> \<open>\<^verbatim>\<open>filepath.Abs\<close> could not read the working directory\<close>
  | RelError              \<comment> \<open>\<^verbatim>\<open>filepath.Rel\<close>: "can't make target relative to base"\<close>
  | ENOENT                \<comment> \<open>no such file or directory\<close>
  | EACCES                \<comment> \<open>permission denied\<close>
  | EISDIR                \<comment> \<open>read of a directory\<close>
  | WriteError string     \<comment> \<open>a \<^verbatim>\<open>Write\<close> to the named bucket object failed\<close>
  | CloseError string     \<comment> \<open>the \<^verbatim>\<open>Close\<close> that commits the named bucket object failed\<close>
  | LocalWriteError       \<comment> \<open>\<^verbatim>\<open>ioutil.WriteFile\<close> failed\<close>

section \<open>parseUri\<close>

text \<open>
  \<^verbatim>\<open>
  func parseUri(uri string) (string, string, error) {
      if strings.HasPrefix(uri, "gs://") {
          uri = strings.TrimPrefix(uri, "gs://")
      }
      split := strings.SplitN(uri, "/", 2)
      if len(split) != 2 {
          return "", "", fmt.Errorf("invalid uri: %s", uri)
      }
      return split[0], split[1], nil
  }
  \<close>
\<close>

definition parseUri :: "string \<Rightarrow> error + (string \<times> string)" where
  "parseUri uri =
     (let uri' = (if HasPrefix uri ''gs://'' then TrimPrefix uri ''gs://'' else uri);
          split = SplitN uri' ''/'' 2
      in if length split \<noteq> 2 then Inl (InvalidUri uri')
         else Inr (split ! 0, split ! 1))"

section \<open>Paths: package path/filepath (Unix)\<close>

text \<open>
  A cleaned path is its rootedness and its elements. \<^verbatim>\<open>filepath.Clean\<close> works on
  the text alone: it drops empty and \<^verbatim>\<open>.\<close> elements, lets \<^verbatim>\<open>..\<close> take back the
  element before it, drops \<^verbatim>\<open>..\<close> at the root and keeps it at the head of a
  relative path; the empty result is \<^verbatim>\<open>.\<close>.
\<close>

datatype path = Path (rooted: bool) (elems: "string list")

fun cleanElems :: "bool \<Rightarrow> string list \<Rightarrow> string list \<Rightarrow> string list" where
  "cleanElems r out [] = out"
| "cleanElems r out (e # es) =
     (if e = [] \<or> e = ''.'' then cleanElems r out es
      else if e = ''..'' then
        (if out \<noteq> [] \<and> last out \<noteq> ''..'' then cleanElems r (butlast out) es
         else if r then cleanElems r out es
         else cleanElems r (out @ [''..'']) es)
      else cleanElems r (out @ [e]) es)"

definition cleanPath :: "string \<Rightarrow> path" where
  "cleanPath s = Path (HasPrefix s ''/'') (cleanElems (HasPrefix s ''/'') [] (Split s ''/''))"

fun render :: "path \<Rightarrow> string" where
  "render (Path True es) = ''/'' @ Join es ''/''"
| "render (Path False []) = ''.''"
| "render (Path False es) = Join es ''/''"

definition Clean :: "string \<Rightarrow> string" where
  "Clean s = render (cleanPath s)"

text \<open>
  \<^verbatim>\<open>filepath.Join\<close>: the elements from the first non-empty one on, joined by
  slashes and cleaned; the empty string when there is none.
\<close>

definition filepath_Join :: "string list \<Rightarrow> string" where
  "filepath_Join elem =
     (case dropWhile (\<lambda>e. e = []) elem of
        [] \<Rightarrow> []
      | es \<Rightarrow> Clean (Join es ''/''))"

text \<open>
  \<^verbatim>\<open>filepath.Rel(basepath, targpath)\<close>. Both paths are cleaned; equal paths give
  \<^verbatim>\<open>.\<close>; a rooted and an unrooted path cannot be related. The loop of the
  source steps over the elements the two cleaned texts share (for a rooted
  text the first element is the empty one before the slash); a base whose
  first differing element is \<^verbatim>\<open>..\<close> is an error; every base element left
  costs one \<^verbatim>\<open>..\<close>, followed by what is left of the target.
\<close>

definition relElems :: "string \<Rightarrow> string list" where
  "relElems s = (if s = [] then [] else if s = ''/'' then [[]] else Split s ''/'')"

fun stripCommon :: "string list \<Rightarrow> string list \<Rightarrow> string list \<times> string list" where
  "stripCommon (b # bs) (t # ts) = (if b = t then stripCommon bs ts else (b # bs, t # ts))"
| "stripCommon bs ts = (bs, ts)"

definition filepath_Rel :: "string \<Rightarrow> string \<Rightarrow> error + string" where
  "filepath_Rel basepath targpath =
     (let base = Clean basepath; targ = Clean targpath
      in if targ = base then Inr ''.''
         else
           (let base' = (if base = ''.'' then [] else base)
            in if HasPrefix base' ''/'' \<noteq> HasPrefix targ ''/'' then Inl RelError
               else
                 (case stripCommon (relElems base') (relElems targ) of
                    (b # bs, t # ts) \<Rightarrow>
                      if b = ''..'' then Inl RelError
                      else Inr (Join (replicate (Suc (length bs)) ''..'' @ t # ts) ''/'')
                  | (b # bs, []) \<Rightarrow> Inr (Join (replicate (Suc (length bs)) ''..'') ''/'')
                  | ([], ts) \<Rightarrow> Inr (Join ts ''/''))))"

section \<open>The local file system\<close>

text \<open>
  The tree below \<^verbatim>\<open>/\<close>. A regular file has its bytes and whether it may be
  opened for reading; a directory has whether it may be listed and its
  entries, in the order \<^verbatim>\<open>readDirNames\<close> returns them (sorted by name); a
  symbolic link holds what it resolves to, if anything; a special file (device,
  pipe, socket) holds what reading it delivers, if it can be opened; an
  entry that cannot be examined (\<^verbatim>\<open>lstat\<close> fails on it) is \<open>Unstatable\<close>.
\<close>

datatype node =
    Regular bool "byte list"
  | Directory bool "(string \<times> node) list"
  | Symlink "node option"
  | Special "byte list option"
  | Unstatable

datatype fileMode = ModeRegular | ModeDir | ModeSymlink | ModeOther

text \<open>What \<^verbatim>\<open>os.Lstat\<close> reports of a node: \<^verbatim>\<open>fi.Mode()\<close>, or no \<^verbatim>\<open>FileInfo\<close> (nil).\<close>

fun lstatNode :: "node \<Rightarrow> fileMode option" where
  "lstatNode (Regular _ _) = Some ModeRegular"
| "lstatNode (Directory _ _) = Some ModeDir"
| "lstatNode (Symlink _) = Some ModeSymlink"
| "lstatNode (Special _) = Some ModeOther"
| "lstatNode Unstatable = None"

definition IsRegular :: "fileMode \<Rightarrow> bool" where
  "IsRegular m = (m = ModeRegular)"

fun follow :: "node \<Rightarrow> node option" where
  "follow (Symlink None) = None"
| "follow (Symlink (Some n)) = follow n"
| "follow n = Some n"

text \<open>Name resolution from a node along the elements of a path; a link on the way is followed.\<close>

fun lookup :: "node \<Rightarrow> string list \<Rightarrow> node option" where
  "lookup n [] = Some n"
| "lookup n (e # es) =
     (case follow n of
        Some (Directory _ ents) \<Rightarrow>
          (case map_of ents e of Some c \<Rightarrow> lookup c es | None \<Rightarrow> None)
      | _ \<Rightarrow> None)"

section \<open>SHA-256 and hexadecimal encoding: crypto/sha256, encoding/hex\<close>

text \<open>
  The hash of FIPS 180-4, written as \<^verbatim>\<open>crypto/sha256\<close> computes it: the message
  is padded to whole 64-byte blocks, each block updates eight 32-bit words.
\<close>

type_synonym uint32 = "32 word"

function chunksOf :: "nat \<Rightarrow> 'a list \<Rightarrow> 'a list list" where
  "chunksOf n xs = (if n = 0 \<or> xs = [] then [] else take n xs # chunksOf n (drop n xs))"
  by pat_completeness auto
termination
  by (relation "measure (\<lambda>(n, xs). length xs)") auto

declare chunksOf.simps [simp del]

text \<open>The round constants \<^verbatim>\<open>_K\<close>, eight to a row.\<close>

definition sha256_K :: "uint32 list" where
  "sha256_K = concat
     [[0x428a2f98, 0x71374491, 0xb5c0fbcf, 0xe9b5dba5, 0x3956c25b, 0x59f111f1, 0x923f82a4, 0xab1c5ed5],
      [0xd807aa98, 0x12835b01, 0x243185be, 0x550c7dc3, 0x72be5d74, 0x80deb1fe, 0x9bdc06a7, 0xc19bf174],
      [0xe49b69c1, 0xefbe4786, 0x0fc19dc6, 0x240ca1cc, 0x2de92c6f, 0x4a7484aa, 0x5cb0a9dc, 0x76f988da],
      [0x983e5152, 0xa831c66d, 0xb00327c8, 0xbf597fc7, 0xc6e00bf3, 0xd5a79147, 0x06ca6351, 0x14292967],
      [0x27b70a85, 0x2e1b2138, 0x4d2c6dfc, 0x53380d13, 0x650a7354, 0x766a0abb, 0x81c2c92e, 0x92722c85],
      [0xa2bfe8a1, 0xa81a664b, 0xc24b8b70, 0xc76c51a3, 0xd192e819, 0xd6990624, 0xf40e3585, 0x106aa070],
      [0x19a4c116, 0x1e376c08, 0x2748774c, 0x34b0bcb5, 0x391c0cb3, 0x4ed8aa4a, 0x5b9cca4f, 0x682e6ff3],
      [0x748f82ee, 0x78a5636f, 0x84c87814, 0x8cc70208, 0x90befffa, 0xa4506ceb, 0xbef9a3f7, 0xc67178f2]]"

type_synonym sha_state =
  "uint32 \<times> uint32 \<times> uint32 \<times> uint32 \<times> uint32 \<times> uint32 \<times> uint32 \<times> uint32"

definition sha256_init :: sha_state where
  "sha256_init =
    (0x6a09e667, 0xbb67ae85, 0x3c6ef372, 0xa54ff53a, 0x510e527f, 0x9b05688c, 0x1f83d9ab, 0x5be0cd19)"

definition ror :: "uint32 \<Rightarrow> nat \<Rightarrow> uint32" where
  "ror x n = word_rotr n x"

definition be_uint32 :: "byte list \<Rightarrow> uint32" where
  "be_uint32 bs = foldl (\<lambda>acc b. push_bit 8 acc OR ucast b) 0 bs"

definition be_bytes32 :: "uint32 \<Rightarrow> byte list" where
  "be_bytes32 w = [ucast (drop_bit 24 w), ucast (drop_bit 16 w), ucast (drop_bit 8 w), ucast w]"

definition be_bytes64 :: "64 word \<Rightarrow> byte list" where
  "be_bytes64 w = map (\<lambda>i. ucast (drop_bit (8 * (7 - i)) w)) [0 ..< 8]"

fun schedule :: "uint32 list \<Rightarrow> nat \<Rightarrow> uint32 list" where
  "schedule w 0 = w"
| "schedule w (Suc n) =
     (let i = length w;
          v1 = w ! (i - 2);
          t1 = ror v1 17 XOR ror v1 19 XOR drop_bit 10 v1;
          v2 = w ! (i - 15);
          t2 = ror v2 7 XOR ror v2 18 XOR drop_bit 3 v2
      in schedule (w @ [t1 + w ! (i - 7) + t2 + w ! (i - 16)]) n)"

fun sha_round :: "uint32 \<times> uint32 \<Rightarrow> sha_state \<Rightarrow> sha_state" where
  "sha_round (k, w) (a, b, c, d, e, f, g, h) =
     (let t1 = h + (ror e 6 XOR ror e 11 XOR ror e 25) + ((e AND f) XOR (NOT e AND g)) + k + w;
          t2 = (ror a 2 XOR ror a 13 XOR ror a 22) + ((a AND b) XOR (a AND c) XOR (b AND c))
      in (t1 + t2, a, b, c, d + t1, e, f, g))"

fun sha_add :: "sha_state \<Rightarrow> sha_state \<Rightarrow> sha_state" where
  "sha_add (a, b, c, d, e, f, g, h) (a', b', c', d', e', f', g', h') =
     (a + a', b + b', c + c', d + d', e + e', f + f', g + g', h + h')"

definition sha_block :: "byte list \<Rightarrow> sha_state \<Rightarrow> sha_state" where
  "sha_block p st =
     (let w = schedule (map be_uint32 (chunksOf 4 p)) 48
      in sha_add st (fold sha_round (zip sha256_K w) st))"

definition sha_pad :: "byte list \<Rightarrow> byte list" where
  "sha_pad msg =
     (let n = length msg;
          k = (if n mod 64 < 56 then 56 - n mod 64 else 64 + 56 - n mod 64)
      in msg @ 0x80 # replicate (k - 1) 0 @ be_bytes64 (push_bit 3 (word_of_nat n)))"

fun sha_out :: "sha_state \<Rightarrow> byte list" where
  "sha_out (a, b, c, d, e, f, g, h) = concat (map be_bytes32 [a, b, c, d, e, f, g, h])"

definition sha256 :: "byte list \<Rightarrow> byte list" where
  "sha256 msg = sha_out (fold sha_block (chunksOf 64 (sha_pad msg)) sha256_init)"

text \<open>
  \<^verbatim>\<open>hex.EncodeToString\<close>: two characters of \<^verbatim>\<open>hextable\<close> per byte, high nibble
  first.
\<close>

definition hextable :: string where
  "hextable = ''0123456789abcdef''"

definition EncodeToString :: "byte list \<Rightarrow> string" where
  "EncodeToString src =
     concat (map (\<lambda>v. [hextable ! unat (drop_bit 4 v), hextable ! unat (v AND 0x0f)]) src)"

section \<open>The manifest and its encoding: encoding/json\<close>

text \<open>
  \<^verbatim>\<open>mfst := map[string]string{}\<close> is an association list with at most one pair
  per key; \<^verbatim>\<open>mfst[k] = v\<close> is \<open>AList.update\<close>. \<^verbatim>\<open>json.Marshal\<close> of such a map
  writes the pairs in the order of their keys. Strings are quoted; a quote and
  a backslash get a backslash, line feed, carriage return and tab their
  letter, every other control character and \<^verbatim>\<open><\<close>, \<^verbatim>\<open>>\<close>, \<^verbatim>\<open>&\<close> the form
  \<^verbatim>\<open>\u00XX\<close>. Bytes from 128 on are taken to be well-formed UTF-8 other than
  U+2028 and U+2029, which the encoder copies.
\<close>

type_synonym manifest = "(string \<times> string) list"

definition jsonEscape :: "char \<Rightarrow> string" where
  "jsonEscape c =
     (if c = CHR 0x22 then [CHR 0x5C, CHR 0x22]
      else if c = CHR 0x5C then [CHR 0x5C, CHR 0x5C]
      else if c = CHR 0x0A then [CHR 0x5C, CHR ''n'']
      else if c = CHR 0x0D then [CHR 0x5C, CHR ''r'']
      else if c = CHR 0x09 then [CHR 0x5C, CHR ''t'']
      else if (of_char c :: nat) < 32 \<or> c = CHR ''<'' \<or> c = CHR ''>'' \<or> c = CHR ''&'' then
        [CHR 0x5C, CHR ''u'', CHR ''0'', CHR ''0'',
         hextable ! (of_char c div 16), hextable ! (of_char c mod 16)]
      else [c])"

definition jsonString :: "string \<Rightarrow> string" where
  "jsonString s = CHR 0x22 # concat (map jsonEscape s) @ [CHR 0x22]"

definition Marshal :: "manifest \<Rightarrow> string" where
  "Marshal m =
     ''{'' @ Join (map (\<lambda>(k, v). jsonString k @ '':'' @ jsonString v) (sort_key fst m)) '','' @ ''}''"

text \<open>\<^verbatim>\<open>[]byte(s)\<close> and \<^verbatim>\<open>string(b)\<close>.\<close>

definition bytesOf :: "string \<Rightarrow> byte list" where
  "bytesOf s = map (\<lambda>c. of_char c) s"

section \<open>The environment of a run\<close>

text \<open>
  What the program is started with and what the world answers: the flags, the
  local tree and working directory, whether \<^verbatim>\<open>os.Getwd\<close> and
  \<^verbatim>\<open>storage.NewClient\<close> succeed, for every bucket object which of its \<^verbatim>\<open>Write\<close>
  calls fails (if any) and whether its \<^verbatim>\<open>Close\<close> fails, whether the local
  manifest can be written, the objects already in the bucket, and the order in
  which the started goroutines deliver their results.
\<close>

type_synonym objects = "string \<Rightarrow> byte list option"

record flags =
  src :: string
  dst :: string
  manifestPath :: string

record env =
  fs :: node
  cwd :: "string list"
  getwd_ok :: bool
  client_ok :: bool
  write_fails :: "string \<Rightarrow> nat option"
  close_fails :: "string \<Rightarrow> bool"
  local_write_ok :: bool
  objects :: objects
  sched :: "string list \<Rightarrow> string list"

text \<open>The elements of the absolute path a name denotes for the kernel.\<close>

definition resolve :: "env \<Rightarrow> string \<Rightarrow> string list" where
  "resolve env name =
     elems (cleanPath (if HasPrefix name ''/'' then name
                       else render (Path True (cwd env)) @ ''/'' @ name))"

text \<open>\<^verbatim>\<open>os.Lstat\<close>: the node a name denotes, the last element not followed.\<close>

definition Lstat :: "env \<Rightarrow> string \<Rightarrow> error + node" where
  "Lstat env name =
     (case lookup (fs env) (resolve env name) of
        None \<Rightarrow> Inl ENOENT
      | Some n \<Rightarrow> (case lstatNode n of None \<Rightarrow> Inl EACCES | Some _ \<Rightarrow> Inr n))"

text \<open>
  \<^verbatim>\<open>filepath.Abs\<close>: a rooted path is cleaned; any other is joined to the working
  directory.
\<close>

definition filepath_Abs :: "env \<Rightarrow> string \<Rightarrow> error + string" where
  "filepath_Abs env p =
     (if HasPrefix p ''/'' then Inr (Clean p)
      else if \<not> getwd_ok env then Inl GetwdError
      else Inr (filepath_Join [render (Path True (cwd env)), p]))"

section \<open>Reading a local file: os.Open and Read\<close>

text \<open>
  An open file is the chunks its \<^verbatim>\<open>Read\<close> calls will deliver and how the reads
  end: with \<^verbatim>\<open>io.EOF\<close> (\<open>None\<close>) or with an error. \<^verbatim>\<open>io.Copy\<close> reads with a buffer
  of 32 KiB, which a regular file fills until its end. A directory can be
  opened, and reading it fails.
\<close>

datatype osFile = File (pending: "byte list list") (final: "error option")

datatype readResult = Bytes "byte list" | EOF | Failed error

definition copyBufSize :: nat where
  "copyBufSize = 32 * 1024"

fun openNode :: "node option \<Rightarrow> error + osFile" where
  "openNode None = Inl ENOENT"
| "openNode (Some (Regular readable content)) =
     (if readable then Inr (File (chunksOf copyBufSize content) None) else Inl EACCES)"
| "openNode (Some (Directory listable ents)) =
     (if listable then Inr (File [] (Some EISDIR)) else Inl EACCES)"
| "openNode (Some (Special (Some content))) = Inr (File (chunksOf copyBufSize content) None)"
| "openNode (Some (Special None)) = Inl EACCES"
| "openNode (Some (Symlink t)) = Inl ENOENT"
| "openNode (Some Unstatable) = Inl EACCES"

text \<open>\<^verbatim>\<open>os.Stat\<close>: the node a name denotes, every link followed.\<close>

definition Stat :: "env \<Rightarrow> string \<Rightarrow> node option" where
  "Stat env name = Option.bind (lookup (fs env) (resolve env name)) follow"

definition osOpen :: "env \<Rightarrow> string \<Rightarrow> error + osFile" where
  "osOpen env name = (if name = [] then Inl ENOENT else openNode (Stat env name))"

fun fileRead :: "osFile \<Rightarrow> readResult \<times> osFile" where
  "fileRead (File (c # cs) fin) = (Bytes c, File cs fin)"
| "fileRead (File [] None) = (EOF, File [] None)"
| "fileRead (File [] (Some e)) = (Failed e, File [] (Some e))"

section \<open>Writing a bucket object: storage.Writer\<close>

text \<open>
  \<^verbatim>\<open>bucket.Object(name).NewWriter(ctx)\<close> returns a writer and cannot fail. The
  bytes written are kept by the writer; the object exists in the bucket only
  after a \<^verbatim>\<open>Close\<close> that returns nil. A write that fails leaves the writer
  failed: later writes and the close return the error.
\<close>

record writer =
  wname :: string
  wbuf :: "byte list"
  wcount :: nat
  werr :: "error option"

definition NewWriter :: "string \<Rightarrow> writer" where
  "NewWriter name = \<lparr>wname = name, wbuf = [], wcount = 0, werr = None\<rparr>"

definition writerWrite :: "env \<Rightarrow> writer \<Rightarrow> byte list \<Rightarrow> writer \<times> error option" where
  "writerWrite env w p =
     (case werr w of
        Some e \<Rightarrow> (w, Some e)
      | None \<Rightarrow>
          if write_fails env (wname w) = Some (wcount w)
          then (w\<lparr>werr := Some (WriteError (wname w))\<rparr>, Some (WriteError (wname w)))
          else (w\<lparr>wbuf := wbuf w @ p, wcount := Suc (wcount w)\<rparr>, None))"

definition writerClose :: "env \<Rightarrow> writer \<Rightarrow> objects \<Rightarrow> objects \<times> error option" where
  "writerClose env w objs =
     (case werr w of
        Some e \<Rightarrow> (objs, Some e)
      | None \<Rightarrow>
          if close_fails env (wname w) then (objs, Some (CloseError (wname w)))
          else (objs(wname w \<mapsto> wbuf w), None))"

section \<open>The tee and the copy: io.TeeReader, io.Copy\<close>

text \<open>
  \<^verbatim>\<open>
  h := sha256.New()
  tee := io.TeeReader(f, gcsObj)
  if _, err := io.Copy(h, tee); err != nil { return "", err }
  \<close>
  The three streams of one upload: the local file, the bucket writer and the
  bytes the hash has been fed (\<^verbatim>\<open>h.Sum(nil)\<close> is the SHA-256 of all of them).
  \<open>trace\<close> records, in program order, each successful \<^verbatim>\<open>Write\<close> on the bucket
  writer, each return of bytes by the tee's \<^verbatim>\<open>Read\<close> and each \<^verbatim>\<open>Write\<close> on the
  hash.
\<close>

datatype event = SinkWrite "byte list" | TeeReturn "byte list" | HashWrite "byte list"

record streams =
  reader :: osFile
  sink :: writer
  hashed :: "byte list"
  trace :: "event list"

text \<open>
  \<^verbatim>\<open>
  func (t *teeReader) Read(p []byte) (n int, err error) {
      n, err = t.r.Read(p)
      if n > 0 {
          if n, err := t.w.Write(p[:n]); err != nil { return n, err }
      }
      return
  }
  \<close>
\<close>

definition teeRead :: "env \<Rightarrow> streams \<Rightarrow> readResult \<times> streams" where
  "teeRead env s =
     (case fileRead (reader s) of
        (Bytes c, f') \<Rightarrow>
          if c \<noteq> [] then
            (case writerWrite env (sink s) c of
               (w', Some e) \<Rightarrow> (Failed e, s\<lparr>reader := f', sink := w'\<rparr>)
             | (w', None) \<Rightarrow>
                 (Bytes c, s\<lparr>reader := f', sink := w', trace := trace s @ [SinkWrite c, TeeReturn c]\<rparr>))
          else (Bytes c, s\<lparr>reader := f', trace := trace s @ [TeeReturn c]\<rparr>)
      | (r, f') \<Rightarrow> (r, s\<lparr>reader := f'\<rparr>))"

lemma teeRead_shrinks:
  "teeRead env s = (Bytes c, s') \<Longrightarrow> length (pending (reader s')) < length (pending (reader s))"
  by (cases "reader s" rule: fileRead.cases)
     (auto simp: teeRead_def split: if_splits prod.splits option.splits)

text \<open>
  The loop of \<^verbatim>\<open>io.Copy(h, tee)\<close>: read from the tee, write what was read to
  the hash (a hash never fails a write), stop at the end of the file (nil) or
  at the first error.
\<close>

function ioCopy :: "env \<Rightarrow> streams \<Rightarrow> error option \<times> streams" where
  "ioCopy env s =
     (case teeRead env s of
        (Bytes c, s') \<Rightarrow>
          if c \<noteq> [] then ioCopy env (s'\<lparr>hashed := hashed s' @ c, trace := trace s' @ [HashWrite c]\<rparr>)
          else ioCopy env s'
      | (EOF, s') \<Rightarrow> (None, s')
      | (Failed e, s') \<Rightarrow> (Some e, s'))"
  by pat_completeness auto
termination
  by (relation "measure (\<lambda>(env, s). length (pending (reader s)))")
     (auto dest: teeRead_shrinks [OF sym])

declare ioCopy.simps [simp del]

section \<open>uploadFile\<close>

text \<open>
  \<^verbatim>\<open>
  func uploadFile(ctx, relPath string, gcsPath string, bucket) (string, error) {
      gcsObj := bucket.Object(filepath.Join(gcsPath, relPath)).NewWriter(ctx)
      defer gcsObj.Close()
      f, err := os.Open(relPath)
      if err != nil { return "", err }
      defer f.Close()
      h := sha256.New()
      tee := io.TeeReader(f, gcsObj)
      if _, err := io.Copy(h, tee); err != nil { return "", err }
      return "sha256:" + hex.EncodeToString(h.Sum(nil)), nil
  }
  \<close>
  The deferred \<^verbatim>\<open>gcsObj.Close()\<close> runs on every return and its result is
  dropped: the function returns what it computed and the bucket as the close
  left it.
\<close>

definition uploadFile :: "env \<Rightarrow> objects \<Rightarrow> string \<Rightarrow> string \<Rightarrow> (error + string) \<times> objects" where
  "uploadFile env objs relPath gcsPath =
     (let gcsObj = NewWriter (filepath_Join [gcsPath, relPath])
      in case osOpen env relPath of
           Inl err \<Rightarrow> (Inl err, fst (writerClose env gcsObj objs))
         | Inr f \<Rightarrow>
             (case ioCopy env \<lparr>reader = f, sink = gcsObj, hashed = [], trace = []\<rparr> of
                (Some err, s) \<Rightarrow> (Inl err, fst (writerClose env (sink s) objs))
              | (None, s) \<Rightarrow>
                  (Inr (''sha256:'' @ EncodeToString (sha256 (hashed s))),
                   fst (writerClose env (sink s) objs))))"

section \<open>The callback of the walk\<close>

text \<open>
  \<^verbatim>\<open>
  func(path string, fi os.FileInfo, err error) error {
      if !fi.Mode().IsRegular() { return nil }
      var relPath string
      if absRoot == path { relPath = path } else {
          relPath, err = filepath.Rel(absRoot, path)
          if err != nil { return err }
      }
      wg.Add(1)
      go func() { ... uploadFile(ctx, relPath, gcsPath, bucket) ... }()
      return nil
  }
  \<close>
  \<open>fi\<close> is \<open>None\<close> for a nil \<^verbatim>\<open>FileInfo\<close>; calling \<^verbatim>\<open>fi.Mode()\<close> on it is a nil
  dereference, which panics. The state the callback changes is the list of
  goroutines it has started, each named by the \<open>relPath\<close> it was given.
\<close>

datatype step = NilDeref | Return "error option" "string list"

definition walkFn ::
  "string \<Rightarrow> string \<Rightarrow> fileMode option \<Rightarrow> error option \<Rightarrow> string list \<Rightarrow> step" where
  "walkFn absRoot path fi err tasks =
     (case fi of
        None \<Rightarrow> NilDeref
      | Some mode \<Rightarrow>
          if \<not> IsRegular mode then Return None tasks
          else if absRoot = path then Return None (tasks @ [path])
          else (case filepath_Rel absRoot path of
                  Inl err' \<Rightarrow> Return (Some err') tasks
                | Inr relPath \<Rightarrow> Return None (tasks @ [relPath])))"

section \<open>filepath.Walk\<close>

text \<open>
  \<^verbatim>\<open>filepath.Walk(root, fn)\<close> examines the root with \<^verbatim>\<open>os.Lstat\<close>; on an error it
  calls \<^verbatim>\<open>fn(root, nil, err)\<close>. Otherwise \<^verbatim>\<open>walk\<close> calls \<^verbatim>\<open>fn\<close> on a file, and on
  a directory calls \<^verbatim>\<open>fn\<close> with the error of listing it, if any, and then
  visits the entries in order: an entry whose \<^verbatim>\<open>lstat\<close> fails is passed to
  \<^verbatim>\<open>fn\<close> with a nil \<^verbatim>\<open>FileInfo\<close> and the error, any other is walked. The first
  error \<^verbatim>\<open>fn\<close> returns ends the walk. (The callback above never returns
  \<^verbatim>\<open>filepath.SkipDir\<close>, so that case of the library is left out.)
\<close>

datatype walkResult = WalkOk "string list" | WalkErr error | WalkPanic

fun walk :: "string \<Rightarrow> string \<Rightarrow> node \<Rightarrow> string list \<Rightarrow> walkResult"
  and walkDir :: "string \<Rightarrow> string \<Rightarrow> (string \<times> node) list \<Rightarrow> string list \<Rightarrow> walkResult" where
  "walk absRoot path (Directory listable ents) tasks =
     (case walkFn absRoot path (Some ModeDir) (if listable then None else Some EACCES) tasks of
        NilDeref \<Rightarrow> WalkPanic
      | Return (Some e) ts \<Rightarrow> WalkErr e
      | Return None ts \<Rightarrow> if listable then walkDir absRoot path ents ts else WalkOk ts)"
| "walk absRoot path n tasks =
     (case walkFn absRoot path (lstatNode n) None tasks of
        NilDeref \<Rightarrow> WalkPanic
      | Return (Some e) ts \<Rightarrow> WalkErr e
      | Return None ts \<Rightarrow> WalkOk ts)"
| "walkDir absRoot path [] tasks = WalkOk tasks"
| "walkDir absRoot path ((name, child) # rest) tasks =
     (let filename = filepath_Join [path, name]
      in case lstatNode child of
           None \<Rightarrow>
             (case walkFn absRoot filename None (Some EACCES) tasks of
                NilDeref \<Rightarrow> WalkPanic
              | Return (Some e) ts \<Rightarrow> WalkErr e
              | Return None ts \<Rightarrow> walkDir absRoot path rest ts)
         | Some fi \<Rightarrow>
             (case walk absRoot filename child tasks of
                WalkOk ts \<Rightarrow> walkDir absRoot path rest ts
              | r \<Rightarrow> r))"

definition Walk :: "env \<Rightarrow> string \<Rightarrow> walkResult" where
  "Walk env root =
     (case Lstat env root of
        Inl err \<Rightarrow>
          (case walkFn root root None (Some err) [] of
             NilDeref \<Rightarrow> WalkPanic
           | Return (Some e) ts \<Rightarrow> WalkErr e
           | Return None ts \<Rightarrow> WalkOk ts)
      | Inr n \<Rightarrow> walk root root n [])"

section \<open>main\<close>

text \<open>
  Each started goroutine runs \<^verbatim>\<open>uploadFile\<close>; on an error it calls
  \<^verbatim>\<open>log.Fatal\<close>, which ends the process; otherwise it sends its digest on the
  channel, and the main goroutine, the only receiver, stores it in the map.
  The channel is closed when all goroutines are done. The results arrive in
  the order \<open>sched env\<close> gives to the started goroutines.
\<close>

fun runTasks ::
  "env \<Rightarrow> objects \<Rightarrow> string \<Rightarrow> string list \<Rightarrow> manifest \<Rightarrow> (error + manifest) \<times> objects" where
  "runTasks env objs gcsPath [] mfst = (Inr mfst, objs)"
| "runTasks env objs gcsPath (relPath # rest) mfst =
     (case uploadFile env objs relPath gcsPath of
        (Inl err, objs') \<Rightarrow> (Inl err, objs')
      | (Inr sha, objs') \<Rightarrow> runTasks env objs' gcsPath rest (AList.update relPath sha mfst))"

datatype status = Exit0 | Fatal error | Panic

record outcome =
  status :: status
  bucket :: objects
  localFile :: "(string \<times> string) option"
  stdout :: string

text \<open>
  \<^verbatim>\<open>
  m, err := json.Marshal(mfst)
  mfstObj := bucket.Object(filepath.Join(gcsPath, "manifest.json")).NewWriter(ctx)
  defer mfstObj.Close()
  if _, err := mfstObj.Write(m); err != nil { log.Fatal(err) }
  if err := ioutil.WriteFile(filepath.Join(*manifestPath, "manifest.json"), m, 0644); err != nil {
      log.Fatal(err)
  }
  fmt.Print(string(m))
  \<close>
  \<^verbatim>\<open>json.Marshal\<close> of a map of strings cannot fail. \<^verbatim>\<open>log.Fatal\<close> leaves through
  \<^verbatim>\<open>os.Exit\<close>, which runs no deferred call; on the normal return the deferred
  \<^verbatim>\<open>mfstObj.Close()\<close> runs and its result is dropped.
\<close>

definition publish :: "env \<Rightarrow> flags \<Rightarrow> string \<Rightarrow> objects \<Rightarrow> manifest \<Rightarrow> outcome" where
  "publish env args gcsPath objs mfst =
     (let m = Marshal mfst;
          mfstObj = NewWriter (filepath_Join [gcsPath, ''manifest.json''])
      in case writerWrite env mfstObj (bytesOf m) of
           (w, Some err) \<Rightarrow> \<lparr>status = Fatal err, bucket = objs, localFile = None, stdout = []\<rparr>
         | (w, None) \<Rightarrow>
             if \<not> local_write_ok env
             then \<lparr>status = Fatal LocalWriteError, bucket = objs, localFile = None, stdout = []\<rparr>
             else \<lparr>status = Exit0,
                   bucket = fst (writerClose env w objs),
                   localFile = Some (filepath_Join [manifestPath args, ''manifest.json''], m),
                   stdout = m\<rparr>)"

definition stopped :: "status \<Rightarrow> objects \<Rightarrow> outcome" where
  "stopped st objs = \<lparr>status = st, bucket = objs, localFile = None, stdout = []\<rparr>"

text \<open>
  \<open>aggregate\<close> is \<^verbatim>\<open>main\<close> up to the end of \<^verbatim>\<open>for f := range shaCh\<close>: it ends the
  run, or it has the prefix, the bucket and the complete map. In the model the
  walk has returned before the first goroutine delivers; when the walk fails,
  what the goroutines started so far did to the bucket is not recorded.
\<close>

definition aggregate :: "env \<Rightarrow> flags \<Rightarrow> outcome + (string \<times> objects \<times> manifest)" where
  "aggregate env args =
     (case parseUri (dst args) of
        Inl err \<Rightarrow> Inl (stopped (Fatal err) (objects env))
      | Inr (bucketName, gcsPath) \<Rightarrow>
          if \<not> client_ok env then Inl (stopped (Fatal ClientError) (objects env))
          else
            (case filepath_Abs env (src args) of
               Inl err \<Rightarrow> Inl (stopped (Fatal err) (objects env))
             | Inr absRoot \<Rightarrow>
                 (case Walk env absRoot of
                    WalkPanic \<Rightarrow> Inl (stopped Panic (objects env))
                  | WalkErr err \<Rightarrow> Inl (stopped (Fatal err) (objects env))
                  | WalkOk tasks \<Rightarrow>
                      (case runTasks env (objects env) gcsPath (sched env tasks) [] of
                         (Inl err, objs) \<Rightarrow> Inl (stopped (Fatal err) objs)
                       | (Inr mfst, objs) \<Rightarrow> Inr (gcsPath, objs, mfst)))))"

definition main :: "env \<Rightarrow> flags \<Rightarrow> outcome" where
  "main env args =
     (case aggregate env args of
        Inl out \<Rightarrow> out
      | Inr (gcsPath, objs, mfst) \<Rightarrow> publish env args gcsPath objs mfst)"

section \<open>What the claims speak of\<close>

text \<open>
  The events one chunk of a file leaves in the trace when it passes the tee and
  the copy: the write to the bucket writer, the return of the chunk by the
  tee's \<^verbatim>\<open>Read\<close>, the write to the hash. (Neither writer is called for a chunk
  of no bytes.)
\<close>

fun chunkTrace :: "byte list \<Rightarrow> event list" where
  "chunkTrace c = (if c = [] then [TeeReturn c] else [SinkWrite c, TeeReturn c, HashWrite c])"

text \<open>
  \<open>copied s r s' k\<close>: a copy that started in \<open>s\<close> and ended in \<open>s'\<close> with result
  \<open>r\<close> has passed the first \<open>k\<close> chunks of the file, and nothing else, to the
  bucket writer and to the hash; a copy that ends without error has passed
  them all.
\<close>

definition copied :: "streams \<Rightarrow> error option \<Rightarrow> streams \<Rightarrow> nat \<Rightarrow> bool" where
  "copied s r s' k \<longleftrightarrow>
     k \<le> length (pending (reader s))
     \<and> trace s' = trace s @ concat (map chunkTrace (take k (pending (reader s))))
     \<and> hashed s' = hashed s @ concat (take k (pending (reader s)))
     \<and> wbuf (sink s') = wbuf (sink s) @ concat (take k (pending (reader s)))
     \<and> wname (sink s') = wname (sink s)
     \<and> (r = None \<longrightarrow> k = length (pending (reader s)) \<and> final (reader s) = None
           \<and> (werr (sink s) = None \<longrightarrow> werr (sink s') = None))"

text \<open>
  A name a directory entry can have, and a tree the walk passes without an
  error: every directory can be listed, every entry can be examined, and the
  entries of a directory have names of their own.
\<close>

definition validName :: "string \<Rightarrow> bool" where
  "validName n \<longleftrightarrow> n \<noteq> [] \<and> CHR ''/'' \<notin> set n \<and> n \<noteq> ''.'' \<and> n \<noteq> ''..''"

fun walkable :: "node \<Rightarrow> bool"
  and walkableIn :: "(string \<times> node) list \<Rightarrow> bool" where
  "walkable (Directory listable ents) = (listable \<and> walkableIn ents)"
| "walkable Unstatable = False"
| "walkable _ = True"
| "walkableIn [] = True"
| "walkableIn ((name, child) # rest) =
     (validName name \<and> name \<notin> fst ` set rest \<and> walkable child \<and> walkableIn rest)"

text \<open>
  The regular files of a tree, each as the list of names that leads to it from
  the root of the tree, and whether every entry of a tree can be examined.
\<close>

fun regularFiles :: "node \<Rightarrow> string list list"
  and regularFilesIn :: "(string \<times> node) list \<Rightarrow> string list list" where
  "regularFiles (Regular _ _) = [[]]"
| "regularFiles (Directory _ ents) = regularFilesIn ents"
| "regularFiles _ = []"
| "regularFilesIn [] = []"
| "regularFilesIn ((name, child) # rest) = map ((#) name) (regularFiles child) @ regularFilesIn rest"

fun allStatable :: "node \<Rightarrow> bool"
  and allStatableIn :: "(string \<times> node) list \<Rightarrow> bool" where
  "allStatable Unstatable = False"
| "allStatable (Directory _ ents) = allStatableIn ents"
| "allStatable _ = True"
| "allStatableIn [] = True"
| "allStatableIn ((name, child) # rest) = (allStatable child \<and> allStatableIn rest)"

section \<open>A small world for concrete runs\<close>

text \<open>
  Two directories, \<^verbatim>\<open>/data\<close> and \<^verbatim>\<open>/work\<close>, each with a file \<^verbatim>\<open>a.txt\<close> of one
  byte (\<^verbatim>\<open>A\<close> and \<^verbatim>\<open>B\<close>); a bucket that is empty and accepts everything; the
  program is started in \<^verbatim>\<open>/data\<close> to upload \<^verbatim>\<open>/data\<close> to \<^verbatim>\<open>gs://b/p\<close>.
\<close>

definition exampleFs :: node where
  "exampleFs = Directory True
     [(''data'', Directory True [(''a.txt'', Regular True [65])]),
      (''work'', Directory True [(''a.txt'', Regular True [66])])]"

definition exampleEnv :: env where
  "exampleEnv = \<lparr>fs = exampleFs, cwd = [''data''], getwd_ok = True, client_ok = True,
     write_fails = (\<lambda>_. None), close_fails = (\<lambda>_. False), local_write_ok = True,
     objects = Map.empty, sched = (\<lambda>ts. ts)\<rparr>"

definition exampleArgs :: flags where
  "exampleArgs = \<lparr>src = ''/data'', dst = ''gs://b/p'', manifestPath = ''out''\<rparr>"

text \<open>
  Variations of the small world: a bucket whose every \<^verbatim>\<open>Close\<close> fails; the
  program started in \<^verbatim>\<open>/work\<close>; a tree whose directory \<^verbatim>\<open>/data/secret\<close> holds a
  file and cannot be listed; a tree with a dangling link and an empty
  directory and no file.
\<close>

definition lostCloseEnv :: env where
  "lostCloseEnv = exampleEnv\<lparr>close_fails := (\<lambda>_. True)\<rparr>"

definition otherDirEnv :: env where
  "otherDirEnv = exampleEnv\<lparr>cwd := [''work'']\<rparr>"

definition lockedEnv :: env where
  "lockedEnv = exampleEnv\<lparr>fs := Directory True
     [(''data'', Directory True [(''secret'', Directory False [(''f'', Regular True [1])])])]\<rparr>"

definition emptyEnv :: env where
  "emptyEnv = exampleEnv\<lparr>fs := Directory True
     [(''data'', Directory True [(''link'', Symlink None), (''sub'', Directory True [])])]\<rparr>"

definition exampleStreams :: streams where
  "exampleStreams =
     \<lparr>reader = File [[1, 2], [3]] None, sink = NewWriter ''o'', hashed = [], trace = []\<rparr>"

section \<open>Facts about the string functions\<close>

lemma HasPrefix_single: "HasPrefix (c # cs) [d] = (c = d)"
  by (simp add: HasPrefix_def)

lemma Index_single_None: "Index s [c] = None \<longleftrightarrow> c \<notin> set s"
  by (induction s) (auto simp: HasPrefix_single)

lemma Index_single_Some:
  "Index s [c] = Some m \<Longrightarrow> m < length s \<and> s ! m = c \<and> c \<notin> set (take m s)"
proof (induction s arbitrary: m)
  case Nil
  then show ?case by simp
next
  case (Cons a s)
  show ?case
  proof (cases "a = c")
    case True
    with Cons.prems show ?thesis by (simp add: HasPrefix_single)
  next
    case False
    with Cons.prems obtain k where k: "Index s [c] = Some k" "m = Suc k"
      by (auto simp: HasPrefix_single)
    from Cons.IH [OF k(1)] False k(2) show ?thesis by simp
  qed
qed

lemma SplitN_two:
  "SplitN s [c] 2 =
     (case Index s [c] of None \<Rightarrow> [s] | Some m \<Rightarrow> [take m s, drop (Suc m) s])"
  by (simp add: numeral_2_eq_2 split: option.split)

lemma parseUri_fails_iff:
  "(\<exists>e. parseUri uri = Inl e) \<longleftrightarrow> CHR ''/'' \<notin> set (TrimPrefix uri ''gs://'')"
proof -
  have "TrimPrefix uri ''gs://'' = (if HasPrefix uri ''gs://'' then TrimPrefix uri ''gs://'' else uri)"
    by (simp add: TrimPrefix_def)
  then show ?thesis
    unfolding parseUri_def Let_def SplitN_two
    by (auto simp: Index_single_None [symmetric] split: option.splits)
qed

lemma parseUri_splits:
  assumes "parseUri uri = Inr (b, p)"
  shows "TrimPrefix uri ''gs://'' = b @ ''/'' @ p \<and> CHR ''/'' \<notin> set b"
proof -
  let ?u = "TrimPrefix uri ''gs://''"
  have u: "?u = (if HasPrefix uri ''gs://'' then TrimPrefix uri ''gs://'' else uri)"
    by (simp add: TrimPrefix_def)
  from assms obtain m where m: "Index ?u ''/'' = Some m" "b = take m ?u" "p = drop (Suc m) ?u"
    unfolding parseUri_def Let_def SplitN_two u [symmetric]
    by (auto split: option.splits)
  from Index_single_Some [OF m(1)]
  have "m < length ?u" "?u ! m = CHR ''/''" "CHR ''/'' \<notin> set (take m ?u)" by simp_all
  then have "?u = take m ?u @ ''/'' @ drop (Suc m) ?u"
    by (metis append_Cons append_Nil id_take_nth_drop)
  with m \<open>CHR ''/'' \<notin> set (take m ?u)\<close> show ?thesis by simp
qed

lemma main_parse_error:
  "parseUri (dst args) = Inl e \<Longrightarrow> main env args = stopped (Fatal e) (objects env)"
  by (simp add: main_def aggregate_def)

lemma parseUri_no_slash_example: "parseUri ''bucket'' = Inl (InvalidUri ''bucket'')"
  by (simp add: parseUri_def HasPrefix_def TrimPrefix_def SplitN_two)

lemma parseUri_example: "parseUri ''gs://b/p'' = Inr (''b'', ''p'')"
  by (simp add: parseUri_def HasPrefix_def TrimPrefix_def SplitN_two)

section \<open>The destination URI (claim C1)\<close>

text \<open>
  C1, as amended. \<^verbatim>\<open>parseUri\<close> returns an error exactly when the URI, with one
  leading \<^verbatim>\<open>gs://\<close> removed, contains no slash. When it succeeds, the bucket is
  the text before the first slash and the prefix is all the text after it;
  either may be empty. When it fails on the \<^verbatim>\<open>--dst\<close> flag, \<^verbatim>\<open>main\<close> stops with
  that error and the bucket is as it was: nothing was uploaded.
\<close>

theorem parseUri_fails_iff_no_slash:
  "((\<exists>e. parseUri uri = Inl e) \<longleftrightarrow> CHR ''/'' \<notin> set (TrimPrefix uri ''gs://''))
   \<and> (\<forall>b p. parseUri uri = Inr (b, p) \<longrightarrow>
          TrimPrefix uri ''gs://'' = b @ ''/'' @ p \<and> CHR ''/'' \<notin> set b)
   \<and> (\<forall>e. parseUri (dst args) = Inl e \<longrightarrow> main env args = stopped (Fatal e) (objects env))"
  using parseUri_fails_iff [of uri] parseUri_splits [of uri] main_parse_error [of args _ env]
  by blast

theorem parseUri_fails_iff_no_slash_witness:
  "parseUri ''bucket'' = Inl (InvalidUri ''bucket'')
   \<and> CHR ''/'' \<notin> set (TrimPrefix ''bucket'' ''gs://'')
   \<and> parseUri ''gs://b/p'' = Inr (''b'', ''p'')
   \<and> TrimPrefix ''gs://b/p'' ''gs://'' = ''b'' @ ''/'' @ ''p''
   \<and> main exampleEnv (exampleArgs\<lparr>dst := ''bucket''\<rparr>)
       = stopped (Fatal (InvalidUri ''bucket'')) (objects exampleEnv)"
  using parseUri_fails_iff_no_slash [of "''bucket''" "exampleArgs\<lparr>dst := ''bucket''\<rparr>" exampleEnv]
    parseUri_fails_iff_no_slash [of "''gs://b/p''" exampleArgs exampleEnv]
    parseUri_no_slash_example parseUri_example
  by simp

text \<open>
  C1 as written fails: a URI with an empty bucket part and a URI with an empty
  prefix part are both accepted.
\<close>

theorem parseUri_accepts_empty_parts:
  "parseUri ''/prefix'' = Inr ([], ''prefix'') \<and> parseUri ''bucket/'' = Inr (''bucket'', [])"
  by (simp add: parseUri_def HasPrefix_def TrimPrefix_def SplitN_two)

section \<open>The callback and a nil FileInfo (claim C10)\<close>

text \<open>
  C10. The callback of the walk panics exactly when its \<^verbatim>\<open>FileInfo\<close> is nil, and
  its result never depends on the error it is handed. \<^verbatim>\<open>filepath.Walk\<close> hands
  it a nil \<^verbatim>\<open>FileInfo\<close> together with the error for a directory entry whose
  \<^verbatim>\<open>lstat\<close> fails and for a root whose \<^verbatim>\<open>Lstat\<close> fails: the walk then ends in
  the panic, not in that error.
\<close>

theorem walkFn_nil_FileInfo:
  "(walkFn absRoot path fi err tasks = NilDeref \<longleftrightarrow> fi = None)
   \<and> walkFn absRoot path fi err tasks = walkFn absRoot path fi None tasks
   \<and> walkDir absRoot path ((name, Unstatable) # rest) tasks = WalkPanic
   \<and> Walk env root = (case Lstat env root of Inl e \<Rightarrow> WalkPanic | Inr n \<Rightarrow> walk root root n [])"
  by (auto simp: walkFn_def Walk_def split: option.splits sum.splits)

section \<open>Facts about the copy\<close>

lemma concat_chunksOf: "0 < n \<Longrightarrow> concat (chunksOf n xs) = xs"
proof (induction n xs rule: chunksOf.induct)
  case (1 n xs)
  then show ?case by (subst chunksOf.simps) auto
qed

lemma chunksOf_nonempty: "[] \<notin> set (chunksOf n xs)"
proof (induction n xs rule: chunksOf.induct)
  case (1 n xs)
  then show ?case by (subst chunksOf.simps) auto
qed

lemma teeRead_Bytes:
  assumes "teeRead env s = (Bytes c, s')"
  shows "\<exists>cs. pending (reader s) = c # cs \<and> reader s' = File cs (final (reader s))
     \<and> hashed s' = hashed s \<and> wname (sink s') = wname (sink s)
     \<and> (if c = [] then sink s' = sink s \<and> trace s' = trace s @ [TeeReturn c]
         else werr (sink s) = None \<and> werr (sink s') = None
            \<and> wbuf (sink s') = wbuf (sink s) @ c
            \<and> trace s' = trace s @ [SinkWrite c, TeeReturn c])"
  using assms
  by (cases "reader s" rule: fileRead.cases)
     (auto simp: teeRead_def writerWrite_def split: if_splits prod.splits option.splits)

lemma teeRead_EOF:
  assumes "teeRead env s = (EOF, s')"
  shows "pending (reader s) = [] \<and> final (reader s) = None \<and> s' = s"
  using assms
  by (cases "reader s" rule: fileRead.cases)
     (auto simp: teeRead_def writerWrite_def split: if_splits prod.splits option.splits)

lemma teeRead_Failed:
  assumes "teeRead env s = (Failed e, s')"
  shows "hashed s' = hashed s \<and> trace s' = trace s \<and> wbuf (sink s') = wbuf (sink s)
     \<and> wname (sink s') = wname (sink s)"
  using assms
  by (cases "reader s" rule: fileRead.cases)
     (auto simp: teeRead_def writerWrite_def split: if_splits prod.splits option.splits)



lemma ioCopy_EOF:
  "teeRead env s = (EOF, t) \<Longrightarrow> ioCopy env s = (None, t)"
  by (subst ioCopy.simps) simp

lemma ioCopy_Failed:
  "teeRead env s = (Failed e, t) \<Longrightarrow> ioCopy env s = (Some e, t)"
  by (subst ioCopy.simps) simp

lemma ioCopy_empty_chunk:
  "teeRead env s = (Bytes [], t) \<Longrightarrow> ioCopy env s = ioCopy env t"
  by (subst ioCopy.simps) simp

lemma ioCopy_chunk:
  "teeRead env s = (Bytes c, t) \<Longrightarrow> c \<noteq> [] \<Longrightarrow>
   ioCopy env s = ioCopy env (t\<lparr>hashed := hashed t @ c, trace := trace t @ [HashWrite c]\<rparr>)"
  by (subst ioCopy.simps) simp

lemma copied_step_empty:
  assumes "teeRead env s = (Bytes [], t)" and "copied t r s' k"
  shows "copied s r s' (Suc k)"
proof -
  from teeRead_Bytes [OF assms(1)] obtain cs where
    "pending (reader s) = [] # cs" "reader t = File cs (final (reader s))"
    "hashed t = hashed s" "sink t = sink s" "trace t = trace s @ [TeeReturn []]"
    by auto
  with assms(2) show ?thesis
    unfolding copied_def by simp
qed

lemma copied_step_chunk:
  assumes "teeRead env s = (Bytes c, t)" and "c \<noteq> []"
    and "copied (t\<lparr>hashed := hashed t @ c, trace := trace t @ [HashWrite c]\<rparr>) r s' k"
  shows "copied s r s' (Suc k)"
proof -
  from teeRead_Bytes [OF assms(1)] assms(2) obtain cs where
    "pending (reader s) = c # cs" "reader t = File cs (final (reader s))"
    "hashed t = hashed s" "wname (sink t) = wname (sink s)"
    "werr (sink s) = None" "werr (sink t) = None" "wbuf (sink t) = wbuf (sink s) @ c"
    "trace t = trace s @ [SinkWrite c, TeeReturn c]"
    by auto
  with assms(2,3) show ?thesis
    unfolding copied_def by simp
qed

lemma ioCopy_invariant:
  "ioCopy env s = (r, s') \<Longrightarrow> \<exists>k. copied s r s' k"
proof (induction env s arbitrary: r s' rule: ioCopy.induct)
  case (1 env s)
  obtain x t where tr: "teeRead env s = (x, t)" by (cases "teeRead env s")
  show ?case
  proof (cases x)
    case (Bytes c)
    show ?thesis
    proof (cases "c = []")
      case True
      with tr Bytes have tr': "teeRead env s = (Bytes [], t)" by simp
      from ioCopy_empty_chunk [OF tr'] "1.prems" have run: "ioCopy env t = (r, s')" by simp
      from True have nn: "\<not> c \<noteq> []" by simp
      from "1.IH"(2) [OF tr [symmetric] Bytes nn run] obtain k where "copied t r s' k" ..
      from copied_step_empty [OF tr' this] show ?thesis ..
    next
      case False
      let ?t = "t\<lparr>hashed := hashed t @ c, trace := trace t @ [HashWrite c]\<rparr>"
      from tr Bytes have tr': "teeRead env s = (Bytes c, t)" by simp
      from ioCopy_chunk [OF tr' False] "1.prems" have run: "ioCopy env ?t = (r, s')" by simp
      from "1.IH"(1) [OF tr [symmetric] Bytes False run] obtain k where "copied ?t r s' k" ..
      from copied_step_chunk [OF tr' False this] show ?thesis ..
    qed
  next
    case EOF
    with tr have tr': "teeRead env s = (EOF, t)" by simp
    from ioCopy_EOF [OF tr'] "1.prems" have "r = None" "s' = t" by simp_all
    with teeRead_EOF [OF tr'] have "copied s r s' 0"
      unfolding copied_def by simp
    then show ?thesis ..
  next
    case (Failed e)
    with tr have tr': "teeRead env s = (Failed e, t)" by simp
    from ioCopy_Failed [OF tr'] "1.prems" have "r = Some e" "s' = t" by simp_all
    with teeRead_Failed [OF tr'] have "copied s r s' 0"
      unfolding copied_def by simp
    then show ?thesis ..
  qed
qed

section \<open>Facts about the digest and the upload of one file\<close>

text \<open>The digest of the empty message, as FIPS 180-4 gives it.\<close>

lemma sha256_empty_message:
  "EncodeToString (sha256 []) =
     ''e3b0c44298fc1c149afbf4c8996fb92427ae41e4649b934ca495991b7852b855''"
  by code_simp

lemma length_be_bytes32: "length (be_bytes32 w) = 4"
  by (simp add: be_bytes32_def)

lemma length_sha_out: "length (sha_out st) = 32"
  by (cases st rule: sha_out.cases) (simp add: length_be_bytes32)

lemma length_sha256: "length (sha256 msg) = 32"
  by (simp add: sha256_def length_sha_out)

lemma hextable_nth: "i < 16 \<Longrightarrow> hextable ! i \<in> set ''0123456789abcdef''"
proof -
  assume "i < 16"
  then have "i < length hextable" by (simp add: hextable_def)
  then have "hextable ! i \<in> set hextable" by (rule nth_mem)
  then show ?thesis by (simp only: hextable_def)
qed

lemma high_nibble_bound: "unat (drop_bit 4 (v :: byte)) < 16"
proof -
  have "unat (drop_bit 4 v) = drop_bit 4 (unat v)"
    by (simp add: unat_drop_bit_eq)
  also have "\<dots> = unat v div 2 ^ 4"
    by (rule drop_bit_eq_div)
  finally have "unat (drop_bit 4 v) = unat v div 2 ^ 4" .
  moreover have "unat v < 2 ^ 8" using unsigned_less [of v] by simp
  ultimately show ?thesis by simp
qed

lemma low_nibble_bound: "unat ((v :: byte) AND 0x0f) < 16"
proof -
  have "unat (v AND 15) \<le> unat (15 :: byte)"
    by (rule word_and_le1 [THEN word_le_nat_alt [THEN iffD1]])
  then show ?thesis by simp
qed

lemma length_EncodeToString: "length (EncodeToString bs) = 2 * length bs"
  by (induction bs) (simp_all add: EncodeToString_def)

lemma set_EncodeToString: "set (EncodeToString bs) \<subseteq> set ''0123456789abcdef''"
proof (induction bs)
  case Nil
  then show ?case by (simp add: EncodeToString_def)
next
  case (Cons b bs)
  have "hextable ! unat (drop_bit 4 b) \<in> set ''0123456789abcdef''"
    by (rule hextable_nth [OF high_nibble_bound])
  moreover have "hextable ! unat (b AND 0x0f) \<in> set ''0123456789abcdef''"
    by (rule hextable_nth [OF low_nibble_bound])
  ultimately show ?case using Cons by (simp add: EncodeToString_def)
qed

lemma uploadFile_Inr:
  assumes "uploadFile env objs relPath gcsPath = (Inr d, objs')"
  shows "\<exists>f. osOpen env relPath = Inr f \<and> final f = None
     \<and> d = ''sha256:'' @ EncodeToString (sha256 (concat (pending f)))
     \<and> objs' = (if close_fails env (filepath_Join [gcsPath, relPath]) then objs
                else objs(filepath_Join [gcsPath, relPath] \<mapsto> concat (pending f)))"
proof -
  let ?name = "filepath_Join [gcsPath, relPath]"
  from assms obtain f where f: "osOpen env relPath = Inr f"
    by (cases "osOpen env relPath") (auto simp: uploadFile_def Let_def)
  let ?s = "\<lparr>reader = f, sink = NewWriter ?name, hashed = [], trace = []\<rparr>"
  obtain r s' where run: "ioCopy env ?s = (r, s')" by (cases "ioCopy env ?s")
  with assms f have r: "r = None"
    and d: "d = ''sha256:'' @ EncodeToString (sha256 (hashed s'))"
    and o: "objs' = fst (writerClose env (sink s') objs)"
    by (cases r; simp add: uploadFile_def Let_def)+
  from ioCopy_invariant [OF run] obtain k where "copied ?s r s' k" ..
  with r have fin: "final f = None" and h: "hashed s' = concat (pending f)"
    and w: "wbuf (sink s') = concat (pending f)" "wname (sink s') = ?name"
      "werr (sink s') = None"
    by (simp_all add: copied_def NewWriter_def)
  from o w have "objs' = (if close_fails env ?name then objs else objs(?name \<mapsto> concat (pending f)))"
    by (simp add: writerClose_def)
  with f fin d h show ?thesis by simp
qed

lemma osOpen_regular:
  assumes "osOpen env name = Inr f" and "Stat env name = Some (Regular r content)"
  shows "concat (pending f) = content \<and> final f = None"
  using assms
  by (auto simp: osOpen_def copyBufSize_def concat_chunksOf split: if_splits)

lemma set_update_subset: "set (AList.update k v al) \<subseteq> insert (k, v) (set al)"
  by (induction al) auto

lemma runTasks_entries:
  assumes "runTasks env objs gcsPath tasks m0 = (Inr m, objs')" and "(k, v) \<in> set m"
  shows "(k, v) \<in> set m0 \<or> (k \<in> set tasks \<and> (\<exists>ob ob'. uploadFile env ob k gcsPath = (Inr v, ob')))"
  using assms
proof (induction tasks arbitrary: objs m0)
  case Nil
  then show ?case by simp
next
  case (Cons t tasks)
  obtain res o1 where up: "uploadFile env objs t gcsPath = (res, o1)"
    by (cases "uploadFile env objs t gcsPath")
  with Cons.prems(1) obtain sha where sha: "res = Inr sha"
    and run: "runTasks env o1 gcsPath tasks (AList.update t sha m0) = (Inr m, objs')"
    by (cases res) auto
  from Cons.IH [OF run Cons.prems(2)]
  consider "(k, v) \<in> set (AList.update t sha m0)"
    | "k \<in> set tasks \<and> (\<exists>ob ob'. uploadFile env ob k gcsPath = (Inr v, ob'))"
    by blast
  then show ?case
  proof cases
    case 1
    with set_update_subset [of t sha m0] have "(k, v) = (t, sha) \<or> (k, v) \<in> set m0" by auto
    with up sha show ?thesis by auto
  next
    case 2
    then show ?thesis by auto
  qed
qed

lemma aggregate_Inr:
  assumes "aggregate env args = Inr (gcsPath, objs, mfst)"
  shows "\<exists>bucketName absRoot tasks.
     parseUri (dst args) = Inr (bucketName, gcsPath) \<and> client_ok env
     \<and> filepath_Abs env (src args) = Inr absRoot \<and> Walk env absRoot = WalkOk tasks
     \<and> runTasks env (objects env) gcsPath (sched env tasks) [] = (Inr mfst, objs)"
  using assms
  by (auto simp: aggregate_def split: sum.splits if_splits walkResult.splits prod.splits)

section \<open>Runs in the small world\<close>

lemmas path_eval =
  Clean_def cleanPath_def HasPrefix_def filepath_Join_def resolve_def
  relElems_def filepath_Rel_def filepath_Abs_def Split_def

lemma example_join: "filepath_Join [''p'', ''a.txt''] = ''p/a.txt''"
  by (simp add: path_eval)

lemma example_resolve: "resolve exampleEnv ''a.txt'' = [''data'', ''a.txt'']"
  by (simp add: path_eval exampleEnv_def)

lemma example_stat: "Stat exampleEnv ''a.txt'' = Some (Regular True [65])"
  by (simp add: Stat_def example_resolve) (simp add: exampleEnv_def exampleFs_def)

lemma chunksOf_small: "xs \<noteq> [] \<Longrightarrow> length xs \<le> n \<Longrightarrow> chunksOf n xs = [xs]"
proof -
  assume ne: "xs \<noteq> []" and le: "length xs \<le> n"
  then have n: "n \<noteq> 0" by (cases xs) auto
  have "chunksOf n [] = ([] :: 'a list list)" by (subst chunksOf.simps) simp
  with ne le n show ?thesis by (subst chunksOf.simps) simp
qed

lemma example_open: "osOpen exampleEnv ''a.txt'' = Inr (File [[65]] None)"
  by (simp add: osOpen_def example_stat chunksOf_small copyBufSize_def)

lemma example_tee: "teeRead exampleEnv exampleStreams =
  (Bytes [1, 2], \<lparr>reader = File [[3]] None,
      sink = \<lparr>wname = ''o'', wbuf = [1, 2], wcount = 1, werr = None\<rparr>,
      hashed = [], trace = [SinkWrite [1, 2], TeeReturn [1, 2]]\<rparr>)"
  by (simp add: teeRead_def exampleStreams_def writerWrite_def NewWriter_def exampleEnv_def)

lemma example_copy: "ioCopy exampleEnv exampleStreams =
  (None, \<lparr>reader = File [] None,
      sink = \<lparr>wname = ''o'', wbuf = [1, 2, 3], wcount = 2, werr = None\<rparr>,
      hashed = [1, 2, 3],
      trace = [SinkWrite [1, 2], TeeReturn [1, 2], HashWrite [1, 2],
               SinkWrite [3], TeeReturn [3], HashWrite [3]]\<rparr>)"
  by (simp add: ioCopy.simps teeRead_def exampleStreams_def writerWrite_def NewWriter_def exampleEnv_def)

lemma example_upload:
  "uploadFile exampleEnv Map.empty ''a.txt'' ''p'' =
     (Inr (''sha256:'' @ EncodeToString (sha256 [65])), [''p/a.txt'' \<mapsto> [65]])"
proof -
  have w: "write_fails exampleEnv = (\<lambda>_. None)" "close_fails exampleEnv = (\<lambda>_. False)"
    by (simp_all add: exampleEnv_def)
  show ?thesis
    by (simp add: uploadFile_def example_join example_open ioCopy.simps teeRead_def writerWrite_def
        NewWriter_def writerClose_def w)
qed

lemma example_walk: "Walk exampleEnv ''/data'' = WalkOk [''a.txt'']"
  by (simp add: Walk_def Lstat_def path_eval exampleEnv_def exampleFs_def walkFn_def IsRegular_def)

lemma example_oracles:
  "write_fails exampleEnv = (\<lambda>_. None)" "close_fails exampleEnv = (\<lambda>_. False)"
  "objects exampleEnv = Map.empty" "sched exampleEnv = (\<lambda>ts. ts)" "client_ok exampleEnv"
  "local_write_ok exampleEnv"
  by (simp_all add: exampleEnv_def)

lemma example_abs: "filepath_Abs exampleEnv ''/data'' = Inr ''/data''"
  by (simp add: path_eval)

lemma example_aggregate:
  "aggregate exampleEnv exampleArgs =
     Inr (''p'', [''p/a.txt'' \<mapsto> [65]], [(''a.txt'', ''sha256:'' @ EncodeToString (sha256 [65]))])"
  by (simp add: aggregate_def exampleArgs_def parseUri_example example_abs example_walk example_oracles example_upload)


section \<open>The order of the writes for one chunk (claim C9)\<close>

text \<open>
  C9, as amended. When the tee's \<^verbatim>\<open>Read\<close> returns a chunk of N > 0 bytes, it has
  written exactly those bytes to the bucket writer, once, and the hash has not
  been touched: the tee knows no hash. The copy loop, which called the read,
  then writes the same bytes to the hash, once, before it reads again. So the
  trace of a copy is, chunk after chunk, the write to the bucket writer, the
  return of the tee's \<^verbatim>\<open>Read\<close>, the write to the hash, for the chunks that
  went through (all of them when the copy ends without error), and the hash
  has been fed exactly these chunks.
\<close>

theorem tee_writes_then_copy_hashes:
  "(teeRead env s = (Bytes c, t) \<and> c \<noteq> [] \<longrightarrow>
      trace t = trace s @ [SinkWrite c, TeeReturn c]
      \<and> wbuf (sink t) = wbuf (sink s) @ c \<and> hashed t = hashed s)
   \<and> (ioCopy env s = (r, s') \<longrightarrow>
        (\<exists>k. k \<le> length (pending (reader s))
           \<and> trace s' = trace s @ concat (map chunkTrace (take k (pending (reader s))))
           \<and> hashed s' = hashed s @ concat (take k (pending (reader s)))
           \<and> (r = None \<longrightarrow> k = length (pending (reader s)))))"
proof -
  have tee: "teeRead env s = (Bytes c, t) \<and> c \<noteq> [] \<longrightarrow>
      trace t = trace s @ [SinkWrite c, TeeReturn c]
      \<and> wbuf (sink t) = wbuf (sink s) @ c \<and> hashed t = hashed s"
    using teeRead_Bytes [of env s c t] by auto
  have copy: "ioCopy env s = (r, s') \<longrightarrow>
        (\<exists>k. k \<le> length (pending (reader s))
           \<and> trace s' = trace s @ concat (map chunkTrace (take k (pending (reader s))))
           \<and> hashed s' = hashed s @ concat (take k (pending (reader s)))
           \<and> (r = None \<longrightarrow> k = length (pending (reader s))))"
  proof
    assume "ioCopy env s = (r, s')"
    from ioCopy_invariant [OF this] obtain k where "copied s r s' k" ..
    then show "\<exists>k. k \<le> length (pending (reader s))
           \<and> trace s' = trace s @ concat (map chunkTrace (take k (pending (reader s))))
           \<and> hashed s' = hashed s @ concat (take k (pending (reader s)))
           \<and> (r = None \<longrightarrow> k = length (pending (reader s)))"
      unfolding copied_def by blast
  qed
  from tee copy show ?thesis by (rule conjI)
qed

theorem tee_writes_then_copy_hashes_witness:
  "fst (teeRead exampleEnv exampleStreams) = Bytes [1, 2]
   \<and> trace (snd (teeRead exampleEnv exampleStreams)) = [SinkWrite [1, 2], TeeReturn [1, 2]]
   \<and> fst (ioCopy exampleEnv exampleStreams) = None
   \<and> trace (snd (ioCopy exampleEnv exampleStreams)) = concat (map chunkTrace [[1, 2], [3]])"
  using tee_writes_then_copy_hashes [where env = exampleEnv and s = exampleStreams
      and c = "[1, 2]" and t = "snd (teeRead exampleEnv exampleStreams)" and r = None
      and s' = "snd (ioCopy exampleEnv exampleStreams)"]
    example_tee example_copy
  by simp

text \<open>
  C9 as written fails: when the bytes are returned to the caller of the tee's
  \<^verbatim>\<open>Read\<close> the hash has not been updated with them; the update follows the
  return.
\<close>

theorem hash_write_follows_tee_return:
  "fst (teeRead exampleEnv exampleStreams) = Bytes [1, 2]
   \<and> hashed (snd (teeRead exampleEnv exampleStreams)) = []
   \<and> trace (snd (teeRead exampleEnv exampleStreams)) = [SinkWrite [1, 2], TeeReturn [1, 2]]
   \<and> trace (snd (ioCopy exampleEnv exampleStreams)) =
       [SinkWrite [1, 2], TeeReturn [1, 2], HashWrite [1, 2],
        SinkWrite [3], TeeReturn [3], HashWrite [3]]"
  by (simp add: example_tee example_copy)


section \<open>The bytes sent are the bytes hashed (claim C4)\<close>

text \<open>
  C4. When \<^verbatim>\<open>uploadFile\<close> succeeds, the file it opened was read to its end, the
  digest is \<^verbatim>\<open>sha256:\<close> and the hexadecimal SHA-256 of exactly the bytes read,
  the object its close commits holds exactly those bytes, and for a regular
  file they are the file's content. At the end of every copy, failed or not,
  the bytes given to the bucket writer are the bytes given to the hash. Every
  entry of the complete map holds the digest of the bytes of the file that
  \<^verbatim>\<open>os.Open\<close> opens under the entry's key.
\<close>

theorem uploadFile_hashes_what_it_sends:
  "(uploadFile env objs relPath gcsPath = (Inr d, objs') \<longrightarrow>
      (\<exists>f. osOpen env relPath = Inr f \<and> final f = None
         \<and> d = ''sha256:'' @ EncodeToString (sha256 (concat (pending f)))
         \<and> objs' = (if close_fails env (filepath_Join [gcsPath, relPath]) then objs
                    else objs(filepath_Join [gcsPath, relPath] \<mapsto> concat (pending f)))
         \<and> (\<forall>r content. Stat env relPath = Some (Regular r content) \<longrightarrow>
               concat (pending f) = content)))
   \<and> (ioCopy env \<lparr>reader = f0, sink = NewWriter name, hashed = [], trace = []\<rparr> = (res, s') \<longrightarrow>
        wbuf (sink s') = hashed s')
   \<and> (aggregate env args = Inr (gcsPath, bkt, mfst) \<and> (k, v) \<in> set mfst \<longrightarrow>
        (\<exists>f. osOpen env k = Inr f \<and> final f = None
           \<and> v = ''sha256:'' @ EncodeToString (sha256 (concat (pending f)))))"
proof -
  have one: "uploadFile env objs relPath gcsPath = (Inr d, objs') \<longrightarrow>
      (\<exists>f. osOpen env relPath = Inr f \<and> final f = None
         \<and> d = ''sha256:'' @ EncodeToString (sha256 (concat (pending f)))
         \<and> objs' = (if close_fails env (filepath_Join [gcsPath, relPath]) then objs
                    else objs(filepath_Join [gcsPath, relPath] \<mapsto> concat (pending f)))
         \<and> (\<forall>r content. Stat env relPath = Some (Regular r content) \<longrightarrow>
               concat (pending f) = content))"
  proof
    assume up: "uploadFile env objs relPath gcsPath = (Inr d, objs')"
    from uploadFile_Inr [OF up] obtain f where
      f: "osOpen env relPath = Inr f" "final f = None"
        "d = ''sha256:'' @ EncodeToString (sha256 (concat (pending f)))"
        "objs' = (if close_fails env (filepath_Join [gcsPath, relPath]) then objs
                  else objs(filepath_Join [gcsPath, relPath] \<mapsto> concat (pending f)))"
      by blast
    from osOpen_regular [OF f(1)]
    have "\<forall>r content. Stat env relPath = Some (Regular r content) \<longrightarrow> concat (pending f) = content"
      by blast
    with f show "\<exists>f. osOpen env relPath = Inr f \<and> final f = None
         \<and> d = ''sha256:'' @ EncodeToString (sha256 (concat (pending f)))
         \<and> objs' = (if close_fails env (filepath_Join [gcsPath, relPath]) then objs
                    else objs(filepath_Join [gcsPath, relPath] \<mapsto> concat (pending f)))
         \<and> (\<forall>r content. Stat env relPath = Some (Regular r content) \<longrightarrow>
               concat (pending f) = content)"
      by blast
  qed
  have two: "ioCopy env \<lparr>reader = f0, sink = NewWriter name, hashed = [], trace = []\<rparr> = (res, s') \<longrightarrow>
        wbuf (sink s') = hashed s'"
  proof
    assume "ioCopy env \<lparr>reader = f0, sink = NewWriter name, hashed = [], trace = []\<rparr> = (res, s')"
    from ioCopy_invariant [OF this] obtain k where
      "copied \<lparr>reader = f0, sink = NewWriter name, hashed = [], trace = []\<rparr> res s' k" ..
    then show "wbuf (sink s') = hashed s'"
      by (simp add: copied_def NewWriter_def)
  qed
  have three: "aggregate env args = Inr (gcsPath, bkt, mfst) \<and> (k, v) \<in> set mfst \<longrightarrow>
        (\<exists>f. osOpen env k = Inr f \<and> final f = None
           \<and> v = ''sha256:'' @ EncodeToString (sha256 (concat (pending f))))"
  proof
    assume a: "aggregate env args = Inr (gcsPath, bkt, mfst) \<and> (k, v) \<in> set mfst"
    with aggregate_Inr [of env args gcsPath bkt mfst] obtain tasks where
      "runTasks env (objects env) gcsPath tasks [] = (Inr mfst, bkt)"
      by blast
    from runTasks_entries [OF this, of k v] a obtain ob ob' where
      "uploadFile env ob k gcsPath = (Inr v, ob')"
      by auto
    from uploadFile_Inr [OF this]
    show "\<exists>f. osOpen env k = Inr f \<and> final f = None
           \<and> v = ''sha256:'' @ EncodeToString (sha256 (concat (pending f)))"
      by blast
  qed
  from one two three show ?thesis by (intro conjI)
qed

theorem uploadFile_hashes_what_it_sends_witness:
  "uploadFile exampleEnv Map.empty ''a.txt'' ''p'' =
     (Inr (''sha256:'' @ EncodeToString (sha256 [65])), [''p/a.txt'' \<mapsto> [65]])
   \<and> osOpen exampleEnv ''a.txt'' = Inr (File [[65]] None)
   \<and> Stat exampleEnv ''a.txt'' = Some (Regular True [65])
   \<and> wbuf (sink (snd (ioCopy exampleEnv exampleStreams))) = [1, 2, 3]
   \<and> hashed (snd (ioCopy exampleEnv exampleStreams)) = [1, 2, 3]
   \<and> aggregate exampleEnv exampleArgs =
       Inr (''p'', [''p/a.txt'' \<mapsto> [65]], [(''a.txt'', ''sha256:'' @ EncodeToString (sha256 [65]))])"
  using uploadFile_hashes_what_it_sends [where env = exampleEnv and objs = Map.empty
      and relPath = "''a.txt''" and gcsPath = "''p''"
      and d = "''sha256:'' @ EncodeToString (sha256 [65])" and objs' = "[''p/a.txt'' \<mapsto> [65]]"
      and ?f0.0 = "File [[1, 2], [3]] None" and name = "''o''" and res = None
      and s' = "snd (ioCopy exampleEnv exampleStreams)" and args = exampleArgs and bkt = "[''p/a.txt'' \<mapsto> [65]]"
      and mfst = "[(''a.txt'', ''sha256:'' @ EncodeToString (sha256 [65]))]" and k = "''a.txt''"
      and v = "''sha256:'' @ EncodeToString (sha256 [65])"]
    example_upload example_open example_stat example_copy example_aggregate
  by (simp add: exampleStreams_def)


section \<open>The form of a digest (claim C6)\<close>

text \<open>
  C6. Every digest a successful \<^verbatim>\<open>uploadFile\<close> returns, and so every value of
  the complete map, is \<^verbatim>\<open>sha256:\<close> followed by the encoding of a digest of 32
  bytes in 64 characters, each one of \<^verbatim>\<open>0123456789abcdef\<close>.
\<close>

theorem digest_is_sha256_and_64_hex:
  "(uploadFile env objs relPath gcsPath = (Inr d, objs') \<longrightarrow>
      (\<exists>dg. length dg = 32 \<and> d = ''sha256:'' @ EncodeToString dg
         \<and> length (EncodeToString dg) = 64
         \<and> set (EncodeToString dg) \<subseteq> set ''0123456789abcdef''))
   \<and> (aggregate env args = Inr (gcsPath, bkt, mfst) \<and> (k, v) \<in> set mfst \<longrightarrow>
        (\<exists>dg. length dg = 32 \<and> v = ''sha256:'' @ EncodeToString dg
           \<and> length (EncodeToString dg) = 64
           \<and> set (EncodeToString dg) \<subseteq> set ''0123456789abcdef''))"
proof -
  have form: "\<exists>dg. length dg = 32 \<and> x = ''sha256:'' @ EncodeToString dg
         \<and> length (EncodeToString dg) = 64
         \<and> set (EncodeToString dg) \<subseteq> set ''0123456789abcdef''"
    if "uploadFile env ob p g = (Inr x, ob')" for ob p g x ob'
  proof -
    from uploadFile_Inr [OF that] obtain f where
      "x = ''sha256:'' @ EncodeToString (sha256 (concat (pending f)))" by blast
    moreover have "length (sha256 (concat (pending f))) = 32" by (rule length_sha256)
    moreover have "length (EncodeToString (sha256 (concat (pending f)))) = 64"
      by (simp add: length_EncodeToString length_sha256)
    moreover note set_EncodeToString [of "sha256 (concat (pending f))"]
    ultimately show ?thesis by blast
  qed
  show ?thesis
  proof (intro conjI impI)
    assume "uploadFile env objs relPath gcsPath = (Inr d, objs')"
    then show "\<exists>dg. length dg = 32 \<and> d = ''sha256:'' @ EncodeToString dg
         \<and> length (EncodeToString dg) = 64
         \<and> set (EncodeToString dg) \<subseteq> set ''0123456789abcdef''"
      by (rule form)
  next
    assume a: "aggregate env args = Inr (gcsPath, bkt, mfst) \<and> (k, v) \<in> set mfst"
    with aggregate_Inr [of env args gcsPath bkt mfst] obtain tasks where
      "runTasks env (objects env) gcsPath tasks [] = (Inr mfst, bkt)"
      by blast
    from runTasks_entries [OF this, of k v] a obtain ob ob' where
      "uploadFile env ob k gcsPath = (Inr v, ob')"
      by auto
    then show "\<exists>dg. length dg = 32 \<and> v = ''sha256:'' @ EncodeToString dg
           \<and> length (EncodeToString dg) = 64
           \<and> set (EncodeToString dg) \<subseteq> set ''0123456789abcdef''"
      by (rule form)
  qed
qed

theorem digest_is_sha256_and_64_hex_witness:
  "uploadFile exampleEnv Map.empty ''a.txt'' ''p'' =
     (Inr (''sha256:'' @ EncodeToString (sha256 [65])), [''p/a.txt'' \<mapsto> [65]])
   \<and> aggregate exampleEnv exampleArgs =
       Inr (''p'', [''p/a.txt'' \<mapsto> [65]], [(''a.txt'', ''sha256:'' @ EncodeToString (sha256 [65]))])
   \<and> length (sha256 [65]) = 32
   \<and> length (EncodeToString (sha256 [65])) = 64
   \<and> set (EncodeToString (sha256 [65])) \<subseteq> set ''0123456789abcdef''"
proof -
  from digest_is_sha256_and_64_hex [where env = exampleEnv and objs = Map.empty
      and relPath = "''a.txt''" and gcsPath = "''p''"
      and d = "''sha256:'' @ EncodeToString (sha256 [65])" and objs' = "[''p/a.txt'' \<mapsto> [65]]"
      and args = exampleArgs and bkt = "[''p/a.txt'' \<mapsto> [65]]"
      and mfst = "[(''a.txt'', ''sha256:'' @ EncodeToString (sha256 [65]))]" and k = "''a.txt''"
      and v = "''sha256:'' @ EncodeToString (sha256 [65])"] example_upload example_aggregate
  obtain dg where dg: "length dg = 32"
      "''sha256:'' @ EncodeToString (sha256 [65]) = ''sha256:'' @ EncodeToString dg"
      "length (EncodeToString dg) = 64" "set (EncodeToString dg) \<subseteq> set ''0123456789abcdef''"
    by auto
  from dg(2) have "EncodeToString (sha256 [65]) = EncodeToString dg" by simp
  with dg example_upload example_aggregate length_sha256 [of "[65]"] show ?thesis by simp
qed

section \<open>Facts about the walk and the publication\<close>

lemma Marshal_Nil: "Marshal [] = ''{}''"
  by (simp add: Marshal_def)

lemma Marshal_single: "Marshal [(k, v)] = ''{'' @ jsonString k @ '':'' @ jsonString v @ ''}''"
  by (simp add: Marshal_def)

lemma manifest_name: "filepath_Join [''p'', ''manifest.json''] = ''p/manifest.json''"
  by (simp add: path_eval)

lemma local_name: "filepath_Join [''out'', ''manifest.json''] = ''out/manifest.json''"
  by (simp add: path_eval)

lemma walkFn_not_regular:
  "mode \<noteq> ModeRegular \<Longrightarrow> walkFn root p (Some mode) err ts = Return None ts"
  by (simp add: walkFn_def IsRegular_def)

lemma walk_without_regular_files:
  "regularFiles n = [] \<Longrightarrow> allStatable n \<Longrightarrow> walk root p n ts = WalkOk ts"
  "regularFilesIn es = [] \<Longrightarrow> allStatableIn es \<Longrightarrow> walkDir root p es ts = WalkOk ts"
proof (induction root p n ts and root p es ts rule: walk_walkDir.induct)
  case (1 absRoot path listable ents tasks)
  then show ?case by (simp add: walkFn_not_regular)
next
  case (3 absRoot path tasks)
  then show ?case by simp
next
  case (4 absRoot path name child rest tasks)
  from "4.prems" have c: "regularFiles child = []" "allStatable child"
    and r: "regularFilesIn rest = []" "allStatableIn rest"
    by simp_all
  from c(2) obtain fi where fi: "lstatNode child = Some fi" by (cases child) auto
  from "4.IH"(2) [OF refl fi c]
  have w: "walk absRoot (filepath_Join [path, name]) child tasks = WalkOk tasks" .
  from "4.IH"(3) [OF refl fi w r]
  have "walkDir absRoot path rest tasks = WalkOk tasks" .
  with fi w show ?case by simp
qed (simp_all add: walkFn_not_regular)

lemma publish_ok:
  assumes "write_fails env (filepath_Join [gcsPath, ''manifest.json'']) \<noteq> Some 0"
    and "local_write_ok env"
  shows "publish env args gcsPath objs mfst =
     \<lparr>status = Exit0,
      bucket = (if close_fails env (filepath_Join [gcsPath, ''manifest.json'']) then objs
                else objs(filepath_Join [gcsPath, ''manifest.json''] \<mapsto> bytesOf (Marshal mfst))),
      localFile = Some (filepath_Join [manifestPath args, ''manifest.json''], Marshal mfst),
      stdout = Marshal mfst\<rparr>"
  using assms
  by (simp add: publish_def Let_def writerWrite_def writerClose_def NewWriter_def)

lemma runTasks_single:
  "uploadFile env objs t g = (Inr d, objs') \<Longrightarrow> runTasks env objs g [t] [] = (Inr [(t, d)], objs')"
  by simp

section \<open>More runs in the small world\<close>

lemma lostClose_upload:
  "uploadFile lostCloseEnv Map.empty ''a.txt'' ''p'' =
     (Inr (''sha256:'' @ EncodeToString (sha256 [65])), Map.empty)"
proof -
  have w: "write_fails lostCloseEnv = (\<lambda>_. None)" "close_fails lostCloseEnv = (\<lambda>_. True)"
    by (simp_all add: lostCloseEnv_def exampleEnv_def)
  have "Stat lostCloseEnv ''a.txt'' = Stat exampleEnv ''a.txt''"
    by (simp add: Stat_def resolve_def lostCloseEnv_def)
  then have o: "osOpen lostCloseEnv ''a.txt'' = Inr (File [[65]] None)"
    using example_open by (simp add: osOpen_def)
  show ?thesis
    by (simp add: uploadFile_def example_join o ioCopy.simps teeRead_def writerWrite_def
        NewWriter_def writerClose_def w)
qed

lemma lostClose_aggregate:
  "aggregate lostCloseEnv exampleArgs =
     Inr (''p'', Map.empty, [(''a.txt'', ''sha256:'' @ EncodeToString (sha256 [65]))])"
proof -
  have w: "client_ok lostCloseEnv" "objects lostCloseEnv = Map.empty" "sched lostCloseEnv = (\<lambda>ts. ts)"
    by (simp_all add: lostCloseEnv_def exampleEnv_def)
  have a: "filepath_Abs lostCloseEnv ''/data'' = Inr ''/data''" by (simp add: path_eval)
  have "Walk lostCloseEnv ''/data'' = Walk exampleEnv ''/data''"
    by (simp add: Walk_def Lstat_def resolve_def lostCloseEnv_def)
  with example_walk have k: "Walk lostCloseEnv ''/data'' = WalkOk [''a.txt'']" by simp
  show ?thesis
    by (simp add: aggregate_def exampleArgs_def parseUri_example a k w lostClose_upload)
qed

lemma otherDir_stat:
  "Stat otherDirEnv ''a.txt'' = Some (Regular True [66])"
  "Stat otherDirEnv ''/data/a.txt'' = Some (Regular True [65])"
  by (simp_all add: Stat_def path_eval otherDirEnv_def exampleEnv_def exampleFs_def)

lemma otherDir_upload:
  "uploadFile otherDirEnv Map.empty ''a.txt'' ''p'' =
     (Inr (''sha256:'' @ EncodeToString (sha256 [66])), [''p/a.txt'' \<mapsto> [66]])"
proof -
  have w: "write_fails otherDirEnv = (\<lambda>_. None)" "close_fails otherDirEnv = (\<lambda>_. False)"
    by (simp_all add: otherDirEnv_def exampleEnv_def)
  have o: "osOpen otherDirEnv ''a.txt'' = Inr (File [[66]] None)"
    by (simp add: osOpen_def otherDir_stat chunksOf_small copyBufSize_def)
  show ?thesis
    by (simp add: uploadFile_def example_join o ioCopy.simps teeRead_def writerWrite_def
        NewWriter_def writerClose_def w)
qed

lemma otherDir_walk: "Walk otherDirEnv ''/data'' = WalkOk [''a.txt'']"
  by (simp add: Walk_def Lstat_def path_eval otherDirEnv_def exampleEnv_def exampleFs_def
      walkFn_def IsRegular_def)

lemma otherDir_aggregate:
  "aggregate otherDirEnv exampleArgs =
     Inr (''p'', [''p/a.txt'' \<mapsto> [66]], [(''a.txt'', ''sha256:'' @ EncodeToString (sha256 [66]))])"
proof -
  have w: "client_ok otherDirEnv" "objects otherDirEnv = Map.empty" "sched otherDirEnv = (\<lambda>ts. ts)"
    by (simp_all add: otherDirEnv_def exampleEnv_def)
  have a: "filepath_Abs otherDirEnv ''/data'' = Inr ''/data''" by (simp add: path_eval)
  show ?thesis
    by (simp add: aggregate_def exampleArgs_def parseUri_example a otherDir_walk w otherDir_upload)
qed

lemma locked_walk: "Walk lockedEnv ''/data'' = WalkOk []"
  by (simp add: Walk_def Lstat_def path_eval lockedEnv_def exampleEnv_def
      walkFn_def IsRegular_def)

lemma locked_lstat:
  "Lstat lockedEnv ''/data'' = Inr (Directory True [(''secret'', Directory False [(''f'', Regular True [1])])])"
  by (simp add: Lstat_def path_eval lockedEnv_def exampleEnv_def)

lemma emptyEnv_lstat:
  "Lstat emptyEnv ''/data'' = Inr (Directory True [(''link'', Symlink None), (''sub'', Directory True [])])"
  by (simp add: Lstat_def path_eval emptyEnv_def exampleEnv_def)

lemma example_file_upload:
  "uploadFile exampleEnv Map.empty ''/data/a.txt'' ''p'' =
     (Inr (''sha256:'' @ EncodeToString (sha256 [65])), [''p/data/a.txt'' \<mapsto> [65]])"
proof -
  have s: "Stat exampleEnv ''/data/a.txt'' = Some (Regular True [65])"
    by (simp add: Stat_def path_eval exampleEnv_def exampleFs_def)
  have o: "osOpen exampleEnv ''/data/a.txt'' = Inr (File [[65]] None)"
    by (simp add: osOpen_def s chunksOf_small copyBufSize_def)
  have j: "filepath_Join [''p'', ''/data/a.txt''] = ''p/data/a.txt''"
    by (simp add: path_eval)
  show ?thesis
    by (simp add: uploadFile_def j o ioCopy.simps teeRead_def writerWrite_def
        NewWriter_def writerClose_def example_oracles)
qed

section \<open>A close that fails (claim C3)\<close>

text \<open>
  C3 fails on the code, at a bucket whose every \<^verbatim>\<open>Close\<close> fails. \<^verbatim>\<open>uploadFile\<close>
  returns the digest although the object was never committed, and \<^verbatim>\<open>main\<close>
  ends with status 0 and prints the manifest although neither the object nor
  the remote manifest exists: the results of the two deferred \<^verbatim>\<open>Close\<close> calls
  are dropped.
\<close>

theorem close_error_is_dropped:
  "uploadFile lostCloseEnv Map.empty ''a.txt'' ''p'' =
     (Inr (''sha256:'' @ EncodeToString (sha256 [65])), Map.empty)
   \<and> status (main lostCloseEnv exampleArgs) = Exit0
   \<and> bucket (main lostCloseEnv exampleArgs) = Map.empty
   \<and> stdout (main lostCloseEnv exampleArgs) =
       Marshal [(''a.txt'', ''sha256:'' @ EncodeToString (sha256 [65]))]"
proof -
  have w: "write_fails lostCloseEnv = (\<lambda>_. None)" "close_fails lostCloseEnv = (\<lambda>_. True)"
    "local_write_ok lostCloseEnv"
    by (simp_all add: lostCloseEnv_def exampleEnv_def)
  show ?thesis
    by (simp add: lostClose_upload main_def lostClose_aggregate publish_def Let_def
        writerWrite_def writerClose_def NewWriter_def w)
qed

section \<open>The file that is opened (claim C2)\<close>

text \<open>
  C2 fails on the code, when the program is started in \<^verbatim>\<open>/work\<close> to upload
  \<^verbatim>\<open>/data\<close>. The walk yields \<^verbatim>\<open>/data/a.txt\<close>, whose content is the byte 65; the
  goroutine opens the relative path \<^verbatim>\<open>a.txt\<close>, which the kernel resolves in the
  working directory: the object \<^verbatim>\<open>p/a.txt\<close> and the digest under the key
  \<^verbatim>\<open>a.txt\<close> are those of \<^verbatim>\<open>/work/a.txt\<close>, the byte 66.
\<close>

theorem upload_reads_relative_to_cwd:
  "Walk otherDirEnv ''/data'' = WalkOk [''a.txt'']
   \<and> Stat otherDirEnv ''/data/a.txt'' = Some (Regular True [65])
   \<and> status (main otherDirEnv exampleArgs) = Exit0
   \<and> bucket (main otherDirEnv exampleArgs) ''p/a.txt'' = Some [66]
   \<and> stdout (main otherDirEnv exampleArgs) =
       Marshal [(''a.txt'', ''sha256:'' @ EncodeToString (sha256 [66]))]"
proof -
  have w: "write_fails otherDirEnv = (\<lambda>_. None)" "close_fails otherDirEnv = (\<lambda>_. False)"
    "local_write_ok otherDirEnv"
    by (simp_all add: otherDirEnv_def exampleEnv_def)
  show ?thesis
    by (simp add: otherDir_walk otherDir_stat main_def otherDir_aggregate publish_def Let_def
        writerWrite_def writerClose_def NewWriter_def w manifest_name)
qed

section \<open>The keys of the manifest (claim C5)\<close>

text \<open>
  C5 fails on the code, at a tree with a directory that cannot be listed. The
  walk hands the directory and the error to the callback, which returns nil
  for whatever is not a regular file; the walk goes on, every upload
  succeeds, and the published manifest is empty although the tree holds the
  regular file \<^verbatim>\<open>secret/f\<close>.
\<close>

theorem unlisted_directory_is_omitted:
  "Lstat lockedEnv ''/data'' =
     Inr (Directory True [(''secret'', Directory False [(''f'', Regular True [1])])])
   \<and> regularFiles (Directory True [(''secret'', Directory False [(''f'', Regular True [1])])])
       = [[''secret'', ''f'']]
   \<and> aggregate lockedEnv exampleArgs = Inr (''p'', Map.empty, [])
   \<and> status (main lockedEnv exampleArgs) = Exit0
   \<and> stdout (main lockedEnv exampleArgs) = ''{}''"
proof -
  have w: "write_fails lockedEnv = (\<lambda>_. None)" "close_fails lockedEnv = (\<lambda>_. False)"
    "local_write_ok lockedEnv" "client_ok lockedEnv" "objects lockedEnv = Map.empty"
    "sched lockedEnv = (\<lambda>ts. ts)"
    by (simp_all add: lockedEnv_def exampleEnv_def)
  have a: "filepath_Abs lockedEnv ''/data'' = Inr ''/data''" by (simp add: path_eval)
  have g: "aggregate lockedEnv exampleArgs = Inr (''p'', Map.empty, [])"
    by (simp add: aggregate_def exampleArgs_def parseUri_example a locked_walk w)
  show ?thesis
    by (simp add: locked_lstat g main_def publish_def Let_def Marshal_Nil
        writerWrite_def writerClose_def NewWriter_def w)
qed

section \<open>A tree without regular files (claim C8)\<close>

text \<open>
  C8. When the root is a directory under which there is no regular file (and
  no entry that cannot be examined), the client can be made and the manifest's
  writes succeed, then the map is empty and the run ends with status 0: the
  text \<^verbatim>\<open>{}\<close> is printed, written to the local \<^verbatim>\<open>manifest.json\<close> and is the
  content of the remote \<^verbatim>\<open>manifest.json\<close> that the close commits.
\<close>

theorem empty_tree_is_published:
  assumes "parseUri (dst args) = Inr (b, gcsPath)"
    and "client_ok env"
    and "filepath_Abs env (src args) = Inr absRoot"
    and "Lstat env absRoot = Inr (Directory l ents)"
    and "regularFiles (Directory l ents) = []"
    and "allStatable (Directory l ents)"
    and "\<forall>ts. mset (sched env ts) = mset ts"
    and "write_fails env (filepath_Join [gcsPath, ''manifest.json'']) \<noteq> Some 0"
    and "local_write_ok env"
  shows "aggregate env args = Inr (gcsPath, objects env, [])
     \<and> status (main env args) = Exit0
     \<and> stdout (main env args) = ''{}''
     \<and> localFile (main env args) = Some (filepath_Join [manifestPath args, ''manifest.json''], ''{}'')
     \<and> bucket (main env args) =
         (if close_fails env (filepath_Join [gcsPath, ''manifest.json'']) then objects env
          else (objects env)(filepath_Join [gcsPath, ''manifest.json''] \<mapsto> bytesOf ''{}''))"
proof -
  from assms(4-6) have "Walk env absRoot = WalkOk []"
    using walk_without_regular_files(1) [of "Directory l ents" absRoot absRoot "[]"]
    by (simp add: Walk_def)
  moreover from assms(7) have "sched env [] = []"
    by (metis mset_zero_iff)
  ultimately have g: "aggregate env args = Inr (gcsPath, objects env, [])"
    using assms(1-3) by (simp add: aggregate_def)
  then have "main env args = publish env args gcsPath (objects env) []"
    by (simp add: main_def)
  with g publish_ok [OF assms(8,9), of args "objects env" "[]"] show ?thesis
    by (simp add: Marshal_Nil)
qed

theorem empty_tree_is_published_witness:
  "aggregate emptyEnv exampleArgs = Inr (''p'', Map.empty, [])
   \<and> status (main emptyEnv exampleArgs) = Exit0
   \<and> stdout (main emptyEnv exampleArgs) = ''{}''
   \<and> localFile (main emptyEnv exampleArgs) = Some (''out/manifest.json'', ''{}'')
   \<and> bucket (main emptyEnv exampleArgs) = [''p/manifest.json'' \<mapsto> bytesOf ''{}'']"
proof -
  have w: "write_fails emptyEnv = (\<lambda>_. None)" "close_fails emptyEnv = (\<lambda>_. False)"
    "local_write_ok emptyEnv" "client_ok emptyEnv" "objects emptyEnv = Map.empty"
    "sched emptyEnv = (\<lambda>ts. ts)"
    by (simp_all add: emptyEnv_def exampleEnv_def)
  have a: "filepath_Abs emptyEnv (src exampleArgs) = Inr ''/data''"
    by (simp add: path_eval exampleArgs_def)
  have p: "parseUri (dst exampleArgs) = Inr (''b'', ''p'')"
    by (simp add: exampleArgs_def parseUri_example)
  have m: "manifestPath exampleArgs = ''out''" by (simp add: exampleArgs_def)
  from empty_tree_is_published [OF p w(4) a emptyEnv_lstat, simplified w manifest_name m local_name]
  show ?thesis by (simp add: w)
qed

section \<open>A root that is a file (claim C7)\<close>

text \<open>
  C7. When the root is a regular file and its upload succeeds, the walk starts
  exactly one goroutine, with the root's own absolute path as \<open>relPath\<close>, and
  the map that is published has exactly one entry, whose key is that path.
\<close>

theorem single_file_root:
  assumes "parseUri (dst args) = Inr (b, gcsPath)"
    and "client_ok env"
    and "filepath_Abs env (src args) = Inr absRoot"
    and "Lstat env absRoot = Inr (Regular r content)"
    and "\<forall>ts. mset (sched env ts) = mset ts"
    and "uploadFile env (objects env) absRoot gcsPath = (Inr d, objs')"
  shows "Walk env absRoot = WalkOk [absRoot]
     \<and> aggregate env args = Inr (gcsPath, objs', [(absRoot, d)])
     \<and> main env args = publish env args gcsPath objs' [(absRoot, d)]"
proof -
  from assms(4) have k: "Walk env absRoot = WalkOk [absRoot]"
    by (simp add: Walk_def walkFn_def IsRegular_def)
  from assms(5) have "mset (sched env [absRoot]) = mset [absRoot]" by blast
  then have s: "sched env [absRoot] = [absRoot]"
    by (metis mset_single_iff_right mset.simps(1) mset.simps(2))
  from assms(1-3) k s runTasks_single [OF assms(6)]
  have g: "aggregate env args = Inr (gcsPath, objs', [(absRoot, d)])"
    by (simp add: aggregate_def)
  then have "main env args = publish env args gcsPath objs' [(absRoot, d)]"
    by (simp add: main_def)
  with k g show ?thesis by simp
qed

theorem single_file_root_witness:
  "Walk exampleEnv ''/data/a.txt'' = WalkOk [''/data/a.txt'']
   \<and> aggregate exampleEnv (exampleArgs\<lparr>src := ''/data/a.txt''\<rparr>) =
       Inr (''p'', [''p/data/a.txt'' \<mapsto> [65]],
            [(''/data/a.txt'', ''sha256:'' @ EncodeToString (sha256 [65]))])
   \<and> stdout (main exampleEnv (exampleArgs\<lparr>src := ''/data/a.txt''\<rparr>)) =
       Marshal [(''/data/a.txt'', ''sha256:'' @ EncodeToString (sha256 [65]))]"
proof -
  let ?args = "exampleArgs\<lparr>src := ''/data/a.txt''\<rparr>"
  have p: "parseUri (dst ?args) = Inr (''b'', ''p'')"
    by (simp add: exampleArgs_def parseUri_example)
  have a: "filepath_Abs exampleEnv (src ?args) = Inr ''/data/a.txt''"
    by (simp add: path_eval)
  have l: "Lstat exampleEnv ''/data/a.txt'' = Inr (Regular True [65])"
    by (simp add: Lstat_def path_eval exampleEnv_def exampleFs_def)
  have f: "\<forall>ts. mset (sched exampleEnv ts) = mset ts" by (simp add: example_oracles)
  have u: "uploadFile exampleEnv (objects exampleEnv) ''/data/a.txt'' ''p'' =
     (Inr (''sha256:'' @ EncodeToString (sha256 [65])), [''p/data/a.txt'' \<mapsto> [65]])"
    by (simp add: example_oracles example_file_upload)
  from single_file_root [OF p example_oracles(5) a l f u]
  show ?thesis
    by (simp add: publish_ok example_oracles)
qed

section \<open>Facts about paths\<close>

lemma Index_at_first_slash:
  "CHR ''/'' \<notin> set x \<Longrightarrow> Index (x @ CHR ''/'' # rest) ''/'' = Some (length x)"
  by (induction x) (auto simp: HasPrefix_single)

lemma length_Join_slash: "length xs \<le> Suc (length (Join xs ''/''))"
  by (induction xs "''/''" rule: Join.induct) auto

lemma SplitN_Join:
  "xs \<noteq> [] \<Longrightarrow> \<forall>x\<in>set xs. CHR ''/'' \<notin> set x \<Longrightarrow> length xs \<le> n \<Longrightarrow>
   SplitN (Join xs ''/'') ''/'' n = xs"
proof (induction xs "''/''" arbitrary: n rule: Join.induct)
  case 1
  then show ?case by simp
next
  case (2 x)
  then obtain k where n: "n = Suc k" by (cases n) auto
  from 2 have "Index x ''/'' = None" by (simp add: Index_single_None)
  with n show ?case by simp
next
  case (3 x y ys)
  then obtain k where n: "n = Suc k" and k: "length (y # ys) \<le> k" by (cases n) auto
  then have k0: "k \<noteq> 0" by auto
  from 3 have x: "CHR ''/'' \<notin> set x" by simp
  have i: "Index (x @ CHR ''/'' # Join (y # ys) ''/'') ''/'' = Some (length x)"
    by (rule Index_at_first_slash [OF x])
  from 3 k have "SplitN (Join (y # ys) ''/'') ''/'' k = y # ys" by simp
  with n k0 i show ?case by simp
qed

lemma Split_Join:
  "xs \<noteq> [] \<Longrightarrow> \<forall>x\<in>set xs. CHR ''/'' \<notin> set x \<Longrightarrow> Split (Join xs ''/'') ''/'' = xs"
  unfolding Split_def
  by (rule SplitN_Join) (simp_all add: length_Join_slash le_SucI)

lemma Join_snoc: "xs \<noteq> [] \<Longrightarrow> Join xs sep @ sep @ y = Join (xs @ [y]) sep"
  by (induction xs sep rule: Join.induct) auto

lemma Join_snoc_slash: "xs \<noteq> [] \<Longrightarrow> Join xs ''/'' @ CHR ''/'' # y = Join (xs @ [y]) ''/''"
  using Join_snoc [of xs "''/''" y] by simp

lemma cleanElems_plain:
  "\<forall>e\<in>set es. e \<noteq> ''.'' \<and> e \<noteq> ''..'' \<Longrightarrow> cleanElems r out es = out @ filter (\<lambda>e. e \<noteq> []) es"
  by (induction es arbitrary: out) auto

lemma validName_plain: "list_all validName es \<Longrightarrow> \<forall>e\<in>set es. e \<noteq> ''.'' \<and> e \<noteq> ''..''"
  by (auto simp: list_all_iff validName_def)

lemma validName_filter: "list_all validName es \<Longrightarrow> filter (\<lambda>e. e \<noteq> []) es = es"
  by (induction es) (auto simp: validName_def)

lemma validName_slash: "list_all validName es \<Longrightarrow> \<forall>x\<in>set es. CHR ''/'' \<notin> set x"
  by (auto simp: list_all_iff validName_def)

lemma render_rooted_Join:
  "es \<noteq> [] \<Longrightarrow> render (Path True es) = Join ([] # es) ''/''"
  by (cases es) auto

lemma Split_rooted:
  assumes "list_all validName es"
  shows "Split (render (Path True es)) ''/'' = (if es = [] then [[], []] else [] # es)"
proof (cases "es = []")
  case True
  then show ?thesis by (simp add: Split_def HasPrefix_def)
next
  case False
  have "Split (Join ([] # es) ''/'') ''/'' = [] # es"
    using validName_slash [OF assms] by (intro Split_Join) auto
  moreover from False have "render (Path True es) = Join ([] # es) ''/''"
    by (rule render_rooted_Join)
  ultimately show ?thesis using False by (simp del: render.simps Join.simps)
qed

lemma HasPrefix_rooted: "HasPrefix (render (Path True es)) ''/''"
  by (simp add: HasPrefix_def)

lemma cleanPath_render:
  assumes "list_all validName es"
  shows "cleanPath (render (Path True es)) = Path True es"
proof -
  have "cleanElems True [] (Split (render (Path True es)) ''/'') = es"
    using assms validName_plain [OF assms] validName_filter [OF assms]
    by (simp add: Split_rooted cleanElems_plain del: render.simps)
  then show ?thesis
    unfolding cleanPath_def using HasPrefix_rooted [of es] by (simp del: render.simps)
qed

lemma Clean_render:
  "list_all validName es \<Longrightarrow> Clean (render (Path True es)) = render (Path True es)"
  by (simp add: Clean_def cleanPath_render del: render.simps)

lemma render_inject:
  assumes "list_all validName es" "list_all validName gs"
    and "render (Path True es) = render (Path True gs)"
  shows "es = gs"
proof -
  from assms(3) have "cleanPath (render (Path True es)) = cleanPath (render (Path True gs))"
    by simp
  with assms(1,2) show ?thesis by (simp add: cleanPath_render del: render.simps)
qed

lemma Join_child:
  assumes "list_all validName es" "validName name"
  shows "filepath_Join [render (Path True es), name] = render (Path True (es @ [name]))"
proof -
  let ?p = "render (Path True es)"
  have ne: "?p \<noteq> []" by simp
  have v: "list_all validName (es @ [name])" using assms by simp
  have "?p @ ''/'' @ name = (if es = [] then Join [[], [], name] ''/'' else Join (([] # es) @ [name]) ''/'')"
  proof (cases "es = []")
    case True
    then show ?thesis by simp
  next
    case False
    then have "?p = Join ([] # es) ''/''" by (rule render_rooted_Join)
    moreover have "Join ([] # es) ''/'' @ CHR ''/'' # name = Join (([] # es) @ [name]) ''/''"
      by (rule Join_snoc_slash) simp
    ultimately show ?thesis using False by (simp del: render.simps Join.simps)
  qed
  moreover have "Split (Join [[], [], name] ''/'') ''/'' = [[], [], name]"
    using assms(2) by (intro Split_Join) (auto simp: validName_def)
  moreover have "Split (Join (([] # es) @ [name]) ''/'') ''/'' = ([] # es) @ [name]"
    using validName_slash [OF v] by (intro Split_Join) auto
  ultimately have sp: "filter (\<lambda>e. e \<noteq> []) (Split (?p @ ''/'' @ name) ''/'') = es @ [name]"
    and pl: "\<forall>e\<in>set (Split (?p @ ''/'' @ name) ''/''). e \<noteq> ''.'' \<and> e \<noteq> ''..''"
    using validName_filter [OF v] validName_plain [OF v]
    by (auto split: if_splits)
  have hp: "HasPrefix (?p @ ''/'' @ name) ''/''" by (simp add: HasPrefix_def)
  have "cleanPath (?p @ ''/'' @ name) = Path True (es @ [name])"
    unfolding cleanPath_def using hp sp pl by (simp add: cleanElems_plain del: render.simps)
  then have "Clean (?p @ ''/'' @ name) = render (Path True (es @ [name]))"
    by (simp add: Clean_def del: render.simps)
  with ne show ?thesis
    by (simp add: filepath_Join_def del: render.simps)
qed

lemma stripCommon_prefix: "stripCommon xs (xs @ ys) = ([], ys)"
  by (induction xs) (auto intro: stripCommon.elims simp: stripCommon.simps(2))

lemma render_not_root:
  "list_all validName es \<Longrightarrow> es \<noteq> [] \<Longrightarrow> render (Path True es) \<noteq> ''/''"
  using render_inject [of es "[]"] by auto

lemma relElems_rooted:
  assumes "list_all validName es"
  shows "relElems (render (Path True es)) = (if es = [] then [[]] else [] # es)"
proof (cases "es = []")
  case True
  then show ?thesis by (simp add: relElems_def)
next
  case False
  with render_not_root [OF assms] have "render (Path True es) \<noteq> ''/''" by simp
  moreover have "render (Path True es) \<noteq> []" by simp
  ultimately show ?thesis using False Split_rooted [OF assms]
    by (simp add: relElems_def del: render.simps)
qed

lemma Rel_descendant:
  assumes "list_all validName A" "list_all validName pre" "pre \<noteq> []"
  shows "filepath_Rel (render (Path True A)) (render (Path True (A @ pre))) = Inr (Join pre ''/'')"
proof -
  let ?b = "render (Path True A)" and ?t = "render (Path True (A @ pre))"
  have v: "list_all validName (A @ pre)" using assms by simp
  have ne: "?t \<noteq> ?b" using render_inject [OF v assms(1)] assms(3) by auto
  have dot: "?b \<noteq> ''.''" by simp
  have rb: "relElems ?b = (if A = [] then [[]] else [] # A)"
    by (rule relElems_rooted [OF assms(1)])
  have rt: "relElems ?t = [] # A @ pre"
    using relElems_rooted [OF v] assms(3) by simp
  have sc: "stripCommon (relElems ?b) (relElems ?t) = ([], pre)"
  proof (cases "A = []")
    case True
    have "stripCommon [[]] ([[]] @ pre) = ([], pre)" by (rule stripCommon_prefix)
    with True show ?thesis unfolding rb rt by simp
  next
    case False
    have "stripCommon ([] # A) (([] # A) @ pre) = ([], pre)" by (rule stripCommon_prefix)
    with False show ?thesis unfolding rb rt by simp
  qed
  show ?thesis
    unfolding filepath_Rel_def Let_def Clean_render [OF v] Clean_render [OF assms(1)]
    using ne dot sc HasPrefix_rooted [of A] HasPrefix_rooted [of "A @ pre"]
    by (simp del: render.simps)
qed

lemma walkFn_descendant:
  assumes "list_all validName A" "list_all validName pre" "pre \<noteq> []"
  shows "walkFn (render (Path True A)) (render (Path True (A @ pre))) (Some ModeRegular) err ts
     = Return None (ts @ [Join pre ''/''])"
proof -
  have v: "list_all validName (A @ pre)" using assms by simp
  from render_inject [OF v assms(1)] assms(3)
  have "render (Path True A) \<noteq> render (Path True (A @ pre))" by auto
  with Rel_descendant [OF assms] show ?thesis
    by (simp add: walkFn_def IsRegular_def del: render.simps)
qed

lemma walk_collects:
  fixes A :: "string list"
  assumes A: "list_all validName A"
  shows "walkable n \<Longrightarrow> list_all validName pre \<Longrightarrow> root = render (Path True A) \<Longrightarrow>
      p = render (Path True (A @ pre)) \<Longrightarrow> (pre = [] \<longrightarrow> lstatNode n \<noteq> Some ModeRegular) \<Longrightarrow>
      walk root p n ts = WalkOk (ts @ map (\<lambda>r. Join (pre @ r) ''/'') (regularFiles n))"
    and "walkableIn es \<Longrightarrow> list_all validName pre \<Longrightarrow> root = render (Path True A) \<Longrightarrow>
      p = render (Path True (A @ pre)) \<Longrightarrow>
      walkDir root p es ts = WalkOk (ts @ map (\<lambda>r. Join (pre @ r) ''/'') (regularFilesIn es))"
proof (induction root p n ts and root p es ts arbitrary: pre and pre rule: walk_walkDir.induct)
  case (1 absRoot path listable ents tasks)
  from "1.prems"(1) have l: listable and w: "walkableIn ents" by simp_all
  have fn: "walkFn absRoot path (Some ModeDir) (if listable then None else Some EACCES) tasks
      = Return None tasks"
    by (simp add: walkFn_def IsRegular_def)
  from "1.IH" [OF fn refl l w "1.prems"(2,3,4)] l fn show ?case by simp
next
  case (3 absRoot path tasks)
  then show ?case by simp
next
  case (4 absRoot path name child rest tasks)
  from "4.prems"(1) have n: "validName name" and c: "walkable child" and r: "walkableIn rest"
    by simp_all
  from c obtain fi where fi: "lstatNode child = Some fi" by (cases child) auto
  let ?pre = "pre @ [name]"
  have vp: "list_all validName ?pre" using "4.prems"(2) n by simp
  have v: "list_all validName (A @ pre)" using A "4.prems"(2) by simp
  have fname: "filepath_Join [path, name] = render (Path True (A @ ?pre))"
    using Join_child [OF v n] "4.prems"(4) by simp
  have "walk absRoot (filepath_Join [path, name]) child tasks =
      WalkOk (tasks @ map (\<lambda>r. Join (?pre @ r) ''/'') (regularFiles child))"
    by (rule "4.IH"(2) [OF refl fi c vp "4.prems"(3) fname]) simp
  moreover from "4.IH"(3) [OF refl fi this r "4.prems"(2,3,4)]
  have "walkDir absRoot path rest (tasks @ map (\<lambda>r. Join (?pre @ r) ''/'') (regularFiles child)) =
      WalkOk ((tasks @ map (\<lambda>r. Join (?pre @ r) ''/'') (regularFiles child))
        @ map (\<lambda>r. Join (pre @ r) ''/'') (regularFilesIn rest))" .
  ultimately show ?case using fi by (simp add: comp_def)
qed (simp_all add: walkFn_descendant [OF A] walkFn_not_regular del: render.simps)

lemma runTasks_keys:
  "runTasks env objs g tasks m0 = (Inr m, ob) \<Longrightarrow>
   fst ` set m = fst ` set m0 \<union> set tasks \<and> (distinct (map fst m0) \<longrightarrow> distinct (map fst m))"
proof (induction tasks arbitrary: objs m0)
  case Nil
  then show ?case by simp
next
  case (Cons t tasks)
  obtain res o1 where up: "uploadFile env objs t g = (res, o1)"
    by (cases "uploadFile env objs t g")
  with Cons.prems obtain sha where sha: "res = Inr sha"
    and run: "runTasks env o1 g tasks (AList.update t sha m0) = (Inr m, ob)"
    by (cases res) auto
  from Cons.IH [OF run] show ?case
    by (auto simp: dom_update distinct_update)
qed

lemma SplitN_pieces:
  "length s < n \<Longrightarrow> \<forall>e\<in>set (SplitN s ''/'' n). CHR ''/'' \<notin> set e"
proof (induction n arbitrary: s)
  case 0
  then show ?case by simp
next
  case (Suc k)
  show ?case
  proof (cases "Index s ''/''")
    case None
    then have "CHR ''/'' \<notin> set s" by (simp add: Index_single_None)
    with None show ?thesis by simp
  next
    case (Some m)
    from Index_single_Some [OF Some] have m: "m < length s" "CHR ''/'' \<notin> set (take m s)"
      by simp_all
    with Suc.prems have "length (drop (Suc m) s) < k" by simp
    from Suc.IH [OF this] have "\<forall>e\<in>set (SplitN (drop (Suc m) s) ''/'' k). CHR ''/'' \<notin> set e" .
    moreover from m Suc.prems have "k \<noteq> 0" by simp
    ultimately show ?thesis using Some m by simp
  qed
qed

lemma Split_pieces: "\<forall>e\<in>set (Split s ''/''). CHR ''/'' \<notin> set e"
  unfolding Split_def by (rule SplitN_pieces) simp

lemma cleanElems_valid:
  "list_all validName out \<Longrightarrow> \<forall>e\<in>set es. CHR ''/'' \<notin> set e \<Longrightarrow>
   list_all validName (cleanElems True out es)"
proof (induction es arbitrary: out)
  case Nil
  then show ?case by simp
next
  case (Cons e es)
  from Cons.prems(1) have bl: "list_all validName (butlast out)"
    by (auto simp: list_all_iff dest: in_set_butlastD)
  from Cons.prems(2) have rest: "\<forall>e\<in>set es. CHR ''/'' \<notin> set e" and e: "CHR ''/'' \<notin> set e"
    by simp_all
  show ?case
  proof (cases "e = [] \<or> e = ''.'' \<or> e = ''..''")
    case True
    with Cons.IH [OF Cons.prems(1) rest] Cons.IH [OF bl rest] show ?thesis by auto
  next
    case False
    with e have "validName e" by (simp add: validName_def)
    with Cons.prems(1) have "list_all validName (out @ [e])" by simp
    from Cons.IH [OF this rest] False show ?thesis by simp
  qed
qed

lemma cleanPath_rooted:
  assumes "HasPrefix s ''/''"
  shows "\<exists>A. list_all validName A \<and> Clean s = render (Path True A)"
proof -
  have "list_all validName (cleanElems True [] (Split s ''/''))"
    by (rule cleanElems_valid) (simp_all add: Split_pieces)
  with assms show ?thesis
    unfolding Clean_def cleanPath_def by auto
qed

lemma Abs_rooted:
  assumes "filepath_Abs env p = Inr a"
  shows "\<exists>A. list_all validName A \<and> a = render (Path True A)"
proof (cases "HasPrefix p ''/''")
  case True
  with assms cleanPath_rooted [OF True] show ?thesis
    by (auto simp: filepath_Abs_def)
next
  case False
  let ?wd = "render (Path True (cwd env))"
  have "HasPrefix (Join [?wd, p] ''/'') ''/''" by (simp add: HasPrefix_def)
  from cleanPath_rooted [OF this] obtain A where
    A: "list_all validName A" "Clean (Join [?wd, p] ''/'') = render (Path True A)" by blast
  have "?wd \<noteq> []" by simp
  then have "filepath_Join [?wd, p] = Clean (Join [?wd, p] ''/'')"
    by (simp add: filepath_Join_def del: render.simps Join.simps)
  with assms False A show ?thesis
    by (auto simp: filepath_Abs_def split: if_splits simp del: render.simps Join.simps)
qed

lemma regularFiles_names:
  "walkable n \<Longrightarrow> \<forall>r\<in>set (regularFiles n). list_all validName r"
  "walkableIn es \<Longrightarrow>
     \<forall>r\<in>set (regularFilesIn es). r \<noteq> [] \<and> list_all validName r \<and> hd r \<in> fst ` set es"
  by (induction n and es rule: regularFiles_regularFilesIn.induct) auto

lemma distinct_regularFiles:
  "walkable n \<Longrightarrow> distinct (regularFiles n)"
  "walkableIn es \<Longrightarrow> distinct (regularFilesIn es)"
proof (induction n and es rule: regularFiles_regularFilesIn.induct)
  case (5 name child rest)
  then have c: "distinct (regularFiles child)" and r: "distinct (regularFilesIn rest)"
    and n: "name \<notin> fst ` set rest" and wr: "walkableIn rest"
    by simp_all
  from c have "distinct (map ((#) name) (regularFiles child))"
    by (simp add: distinct_map)
  moreover have "set (map ((#) name) (regularFiles child)) \<inter> set (regularFilesIn rest) = {}"
  proof (rule ccontr)
    assume "set (map ((#) name) (regularFiles child)) \<inter> set (regularFilesIn rest) \<noteq> {}"
    then obtain x where x: "name # x \<in> set (regularFilesIn rest)" by auto
    with regularFiles_names(2) [OF wr] have "hd (name # x) \<in> fst ` set rest" by blast
    with n show False by simp
  qed
  ultimately show ?case using r by simp
qed simp_all

lemma Join_inject:
  assumes "xs \<noteq> []" "ys \<noteq> []" "list_all validName xs" "list_all validName ys"
    and "Join xs ''/'' = Join ys ''/''"
  shows "xs = ys"
proof -
  have x: "Split (Join xs ''/'') ''/'' = xs"
    by (rule Split_Join [OF assms(1) validName_slash [OF assms(3)]])
  have y: "Split (Join ys ''/'') ''/'' = ys"
    by (rule Split_Join [OF assms(2) validName_slash [OF assms(4)]])
  from assms(5) have "Split (Join xs ''/'') ''/'' = Split (Join ys ''/'') ''/''"
    by (rule arg_cong)
  then show ?thesis by (simp only: x y)
qed

lemma distinct_keys_of_files:
  assumes "walkableIn es"
  shows "distinct (map (\<lambda>r. Join r ''/'') (regularFilesIn es))"
proof -
  have "inj_on (\<lambda>r. Join r ''/'') (set (regularFilesIn es))"
  proof (rule inj_onI)
    fix x y
    assume x: "x \<in> set (regularFilesIn es)" and y: "y \<in> set (regularFilesIn es)"
      and eq: "Join x ''/'' = Join y ''/''"
    from regularFiles_names(2) [OF assms] x y
    have "x \<noteq> []" "y \<noteq> []" "list_all validName x" "list_all validName y" by blast+
    then show "x = y" using eq by (rule Join_inject)
  qed
  with distinct_regularFiles(2) [OF assms] show ?thesis
    by (simp add: distinct_map)
qed


section \<open>The keys of the manifest when the walk meets no error\<close>

text \<open>
  What holds of claim C5 on the code. When the root is a directory, every
  directory under it can be listed, every entry can be examined and all
  uploads succeed, the keys of the complete map are exactly the paths of the
  regular files under the root, relative to the root; no key occurs twice, and
  there are as many entries as regular files. Links, special files and
  directories give no entry. The order in which the goroutines deliver does not
  matter.
\<close>

theorem manifest_keys_when_walk_meets_no_error:
  assumes "aggregate env args = Inr (gcsPath, bkt, mfst)"
    and "filepath_Abs env (src args) = Inr absRoot"
    and "Lstat env absRoot = Inr (Directory l ents)"
    and "walkable (Directory l ents)"
    and "\<forall>ts. mset (sched env ts) = mset ts"
  shows "fst ` set mfst = (\<lambda>r. Join r ''/'') ` set (regularFiles (Directory l ents))
     \<and> distinct (map fst mfst)
     \<and> length mfst = length (regularFiles (Directory l ents))"
proof -
  from Abs_rooted [OF assms(2)] obtain A where
    A: "list_all validName A" "absRoot = render (Path True A)" by blast
  from aggregate_Inr [OF assms(1)] assms(2) obtain tasks where
    w: "Walk env absRoot = WalkOk tasks"
    and r: "runTasks env (objects env) gcsPath (sched env tasks) [] = (Inr mfst, bkt)"
    by auto
  have "walk absRoot absRoot (Directory l ents) [] =
      WalkOk ([] @ map (\<lambda>r. Join ([] @ r) ''/'') (regularFiles (Directory l ents)))"
    by (rule walk_collects(1) [OF A(1) assms(4), where pre = "[]"]) (simp_all add: A(2))
  with w assms(3) have tasks: "tasks = map (\<lambda>r. Join r ''/'') (regularFiles (Directory l ents))"
    by (simp add: Walk_def)
  from assms(5) have "set (sched env tasks) = set tasks"
    by (metis set_mset_mset)
  with runTasks_keys [OF r] tasks
  have keys: "fst ` set mfst = (\<lambda>r. Join r ''/'') ` set (regularFiles (Directory l ents))"
    and dist: "distinct (map fst mfst)"
    by simp_all
  from assms(4) have "distinct tasks"
    unfolding tasks using distinct_keys_of_files [of ents] by simp
  then have "card (set tasks) = length tasks" by (rule distinct_card)
  moreover from dist have "card (set (map fst mfst)) = length (map fst mfst)" by (rule distinct_card)
  moreover from keys tasks have "set (map fst mfst) = set tasks" by simp
  ultimately have "length mfst = length (regularFiles (Directory l ents))"
    using tasks by simp
  with keys dist show ?thesis by simp
qed

lemma example_lstat:
  "Lstat exampleEnv ''/data'' = Inr (Directory True [(''a.txt'', Regular True [65])])"
  by (simp add: Lstat_def path_eval exampleEnv_def exampleFs_def)

theorem manifest_keys_when_walk_meets_no_error_witness:
  "aggregate exampleEnv exampleArgs =
     Inr (''p'', [''p/a.txt'' \<mapsto> [65]], [(''a.txt'', ''sha256:'' @ EncodeToString (sha256 [65]))])
   \<and> walkable (Directory True [(''a.txt'', Regular True [65])])
   \<and> regularFiles (Directory True [(''a.txt'', Regular True [65])]) = [[''a.txt'']]
   \<and> fst ` set [(''a.txt'', ''sha256:'' @ EncodeToString (sha256 [65]))] = {''a.txt''}"
proof -
  have a: "filepath_Abs exampleEnv (src exampleArgs) = Inr ''/data''"
    by (simp add: path_eval exampleArgs_def)
  have w: "walkable (Directory True [(''a.txt'', Regular True [65])])"
    by (simp add: validName_def)
  have f: "\<forall>ts. mset (sched exampleEnv ts) = mset ts" by (simp add: example_oracles)
  from manifest_keys_when_walk_meets_no_error [OF example_aggregate a example_lstat w f]
    example_aggregate w
  show ?thesis by simp
qed

end
